theory Spec2Isabelle
  imports Complex_Main "HOL-Library.Word" "HOL-Library.Log_Nat" "HOL-Library.Sublist"
begin

section \<open>The reporting agent of main.go\<close>

text \<open>
  The agent logs in once, then on every firing of a cron job asks the hypervisor for
  its resources (\<open>pvesh get /cluster/resources\<close>), converts units, keeps the records of
  type qemu and lxc, and posts them to the collector. This theory embeds \<open>main.go\<close>:
  its structs as records, its three functions \<open>login\<close>, \<open>getVMs\<close> and
  \<open>sendToServer\<close>, the closure registered with cron, and \<open>main\<close>. Library calls that
  reach outside the process (HTTP, the subprocess, JSON coding) are fields of a record
  \<open>world\<close>. What the program computes itself is defined here: the float64 division of
  the language, \<open>fmt.Sprintf("%.2f", x)\<close> and \<open>strconv.ParseFloat(s, 64)\<close>, after
  IEEE 754 and the documentation of the two packages, whose conversions between binary
  and decimal are exact and correctly rounded.
\<close>

subsection \<open>float64\<close>

text \<open>
  A float64 is a NaN, an infinity with its sign bit, or a finite number: the sign bit
  (\<open>True\<close> for negative) and the magnitude, a rational. Both zeros exist
  (\<open>F64_Fin False 0\<close> and \<open>F64_Fin True 0\<close>). The magnitudes of binary64 are the numbers
  \<open>m * 2^e\<close> with \<open>m < 2^53\<close> and \<open>-1074 \<le> e \<le> 971\<close>; \<open>is_float64\<close> says that a value
  of the datatype is one of them, and the theorems about every float64 are stated for
  the values it accepts. The payload of a NaN is not kept: the program never looks at it.
\<close>

datatype float64 = F64_NaN | F64_Inf bool | F64_Fin bool rat

text \<open>Powers of two with an integer exponent.\<close>

definition pow2 :: "int \<Rightarrow> rat" where
  "pow2 k = (if 0 \<le> k then 2 ^ nat k else 1 / 2 ^ nat (- k))"

text \<open>The floor of the binary logarithm of a positive rational.\<close>

definition ilog2 :: "rat \<Rightarrow> int" where
  "ilog2 q =
     (let k = bitlen (fst (quotient_of q)) - bitlen (snd (quotient_of q))
      in if pow2 k \<le> q then k else k - 1)"

text \<open>
  The exponent of the unit in the last place of the binade of \<open>q\<close>: 52 below the binary
  logarithm for a normal number, \<open>-1074\<close> for a subnormal one and for zero.
\<close>

definition ulp_exp :: "rat \<Rightarrow> int" where
  "ulp_exp q = (if q \<le> 0 then - 1074 else max (- 1074) (ilog2 q - 52))"

text \<open>Rounding to the nearest integer, a tie to the even one.\<close>

definition round_half_even :: "rat \<Rightarrow> int" where
  "round_half_even t =
     (let f = \<lfloor>t\<rfloor>; r = t - of_int f
      in if r < 1 / 2 then f
         else if 1 / 2 < r then f + 1
         else if even f then f else f + 1)"

text \<open>
  IEEE 754 round-to-nearest-even of a non-negative rational to 53 significant bits,
  with the exponent unbounded above: the result is a multiple of the unit in the last
  place of the binade of \<open>q\<close>. A result of \<open>2^1024\<close> or more is an overflow.
\<close>

definition round_binary64 :: "rat \<Rightarrow> rat" where
  "round_binary64 q = of_int (round_half_even (q / pow2 (ulp_exp q))) * pow2 (ulp_exp q)"

definition overflows :: "rat \<Rightarrow> bool" where
  "overflows r = (2 ^ 1024 \<le> r)"

definition is_binary64 :: "rat \<Rightarrow> bool" where
  "is_binary64 q =
     (0 \<le> q \<and> q < 2 ^ 1024 \<and>
      of_int \<lfloor>q / pow2 (ulp_exp q)\<rfloor> = q / pow2 (ulp_exp q))"

fun is_float64 :: "float64 \<Rightarrow> bool" where
  "is_float64 F64_NaN = True"
| "is_float64 (F64_Inf s) = True"
| "is_float64 (F64_Fin s q) = is_binary64 q"

text \<open>The result of an operation whose exact value has sign \<open>s\<close> and magnitude \<open>q\<close>.\<close>

definition float64_of :: "bool \<Rightarrow> rat \<Rightarrow> float64" where
  "float64_of s q =
     (if overflows (round_binary64 q) then F64_Inf s else F64_Fin s (round_binary64 q))"

text \<open>Go's \<open>x / y\<close> on float64: IEEE 754 division.\<close>

fun float64_div :: "float64 \<Rightarrow> float64 \<Rightarrow> float64" where
  "float64_div F64_NaN y = F64_NaN"
| "float64_div x F64_NaN = F64_NaN"
| "float64_div (F64_Inf s) (F64_Inf t) = F64_NaN"
| "float64_div (F64_Inf s) (F64_Fin t b) = F64_Inf (s \<noteq> t)"
| "float64_div (F64_Fin s a) (F64_Inf t) = F64_Fin (s \<noteq> t) 0"
| "float64_div (F64_Fin s a) (F64_Fin t b) =
     (if b = 0 then (if a = 0 then F64_NaN else F64_Inf (s \<noteq> t))
      else float64_of (s \<noteq> t) (a / b))"

subsection \<open>Formatting and parsing\<close>

definition digit_char :: "nat \<Rightarrow> char" where
  "digit_char d = char_of (48 + d)"

definition is_digit :: "char \<Rightarrow> bool" where
  "is_digit c = (48 \<le> (of_char c :: nat) \<and> (of_char c :: nat) \<le> 57)"

definition digit_val :: "char \<Rightarrow> nat" where
  "digit_val c = of_char c - 48"

text \<open>The decimal digits of a natural number, without leading zeros.\<close>

fun digits :: "nat \<Rightarrow> string" where
  "digits n = (if n < 10 then [digit_char n] else digits (n div 10) @ [digit_char (n mod 10)])"

text \<open>The number a string of digits denotes; the empty string denotes 0.\<close>

definition nat_of_digits :: "string \<Rightarrow> nat" where
  "nat_of_digits ds = foldl (\<lambda>n c. 10 * n + digit_val c) 0 ds"

text \<open>
  \<open>fmt.Sprintf("%.2f", x)\<close>. A NaN prints as \<open>NaN\<close>, the infinities as \<open>+Inf\<close> and
  \<open>-Inf\<close>. A finite number prints its exact value rounded to two decimals, a tie to
  the even digit (strconv rounds the exact decimal expansion), with a minus sign when
  the sign bit is set, also before \<open>0.00\<close>. \<open>hundredths q\<close> is the rounded magnitude
  counted in hundredths.
\<close>

definition hundredths :: "rat \<Rightarrow> nat" where
  "hundredths q = nat (round_half_even (q * 100))"

fun Sprintf_2f :: "float64 \<Rightarrow> string" where
  "Sprintf_2f F64_NaN = ''NaN''"
| "Sprintf_2f (F64_Inf s) = (if s then ''-Inf'' else ''+Inf'')"
| "Sprintf_2f (F64_Fin s q) =
     (let n = hundredths q
      in (if s then ''-'' else '''') @ digits (n div 100) @ ''.'' @
         [digit_char (n mod 100 div 10), digit_char (n mod 10)])"

datatype num_error = ErrSyntax | ErrRange

definition lower :: "char \<Rightarrow> char" where
  "lower c = (if 65 \<le> (of_char c :: nat) \<and> (of_char c :: nat) \<le> 90
              then char_of ((of_char c :: nat) + 32) else c)"

text \<open>
  strconv's \<open>special\<close>: the strings \<open>inf\<close> and \<open>infinity\<close> with an optional sign, and
  \<open>nan\<close> without one, in any case of the letters.
\<close>

definition special :: "string \<Rightarrow> float64 option" where
  "special s =
     (let l = map lower s
      in if l = ''nan'' then Some F64_NaN
         else if l = ''inf'' \<or> l = ''infinity'' \<or> l = ''+inf'' \<or> l = ''+infinity''
           then Some (F64_Inf False)
         else if l = ''-inf'' \<or> l = ''-infinity'' then Some (F64_Inf True)
         else None)"

text \<open>
  strconv's \<open>readFloat\<close> on plain decimal strings: an optional sign, digits, at most one
  point, at least one digit, and nothing after. The result is the sign and the exact
  value. Exponents, hexadecimal mantissas and underscores between digits, which Go
  accepts as well, are outside this model (they are a syntax error here); \<open>Sprintf_2f\<close>
  never writes them.
\<close>

definition readFloat :: "string \<Rightarrow> (bool \<times> rat) option" where
  "readFloat s =
     (let neg = (s \<noteq> [] \<and> hd s = CHR ''-'');
          body = (if s \<noteq> [] \<and> (hd s = CHR ''+'' \<or> hd s = CHR ''-'') then tl s else s);
          ip = takeWhile is_digit body;
          r1 = dropWhile is_digit body;
          sawdot = (r1 \<noteq> [] \<and> hd r1 = CHR ''.'');
          fp = (if sawdot then takeWhile is_digit (tl r1) else []);
          r2 = (if sawdot then dropWhile is_digit (tl r1) else r1)
      in if ip @ fp = [] \<or> r2 \<noteq> [] then None
         else Some (neg, of_nat (nat_of_digits (ip @ fp)) / 10 ^ length fp))"

text \<open>
  \<open>strconv.ParseFloat(s, 64)\<close>: the nearest float64 to the decimal value. On a syntax
  error it returns 0 and \<open>ErrSyntax\<close>; when the value rounds beyond the largest float64
  it returns the infinity of its sign and \<open>ErrRange\<close>.
\<close>

definition ParseFloat :: "string \<Rightarrow> float64 \<times> num_error option" where
  "ParseFloat s =
     (case special s of
        Some f \<Rightarrow> (f, None)
      | None \<Rightarrow>
          (case readFloat s of
             None \<Rightarrow> (F64_Fin False 0, Some ErrSyntax)
           | Some (neg, q) \<Rightarrow>
               if overflows (round_binary64 q) then (F64_Inf neg, Some ErrRange)
               else (F64_Fin neg (round_binary64 q), None)))"

subsection \<open>The structs\<close>

text \<open>
  A Go slice is nil or holds elements; the two differ when marshalled (\<open>null\<close> against
  \<open>[]\<close>). Go's \<open>int\<close> is a 64-bit word; the program only copies the two fields of that
  type. The field \<open>UserID\<close> of \<open>LoginResponse\<close> is \<open>lr_UserID\<close> here, since \<open>VMInfo\<close> has
  a field of the same name.
\<close>

datatype 'a slice = NilSlice | Slice "'a list"

fun elems :: "'a slice \<Rightarrow> 'a list" where
  "elems NilSlice = []"
| "elems (Slice xs) = xs"

fun append_slice :: "'a slice \<Rightarrow> 'a \<Rightarrow> 'a slice" where
  "append_slice s x = Slice (elems s @ [x])"

record VMInfo =
  UserID :: string
  Name :: string
  VMID :: "64 word"
  Type :: string
  Status :: string
  CPU :: float64
  MaxCPU :: "64 word"
  Mem :: float64
  MaxMem :: float64
  Disk :: float64
  MaxDisk :: float64

record LoginResponse =
  lr_UserID :: string
  AccessToken :: string
  RefreshToken :: string

record LoginCredentials =
  ID :: string
  Password :: string

record Response =
  UserId :: string
  Vms :: "VMInfo slice"

subsection \<open>Errors and the outside world\<close>

text \<open>
  An error value is one a library call returned (\<open>Lib\<close>, with its message) or one that
  \<open>fmt.Errorf\<close> built in this program around a cause or a status.
\<close>

datatype error =
    Lib string
  | LoginRequestFailed error
  | LoginFailedWithStatusCode int
  | FailedToDecodeLoginResponse error
  | FailedToExecutePvesh error
  | FailedToUnmarshalJSON error
  | ReceivedNonOKResponse string

record http_response =
  StatusCode :: int
  StatusLine :: string
  Body :: string

record http_request =
  Method :: string
  URL :: string
  ContentType :: string
  Payload :: string

text \<open>
  Of an HTTP response the program reads \<open>StatusCode\<close>, \<open>Status\<close> (here \<open>StatusLine\<close>) and
  the body; of a request it sets the method, the URL, the body and one header.

  A \<open>world\<close> is what the process meets outside itself at one moment: the results of the
  library calls it makes. \<open>exec_Output\<close> is \<open>cmd.Output()\<close> of the pvesh command;
  \<open>http_NewRequest\<close> fails on a URL that does not parse.
\<close>

record world =
  json_Marshal_LoginCredentials :: "LoginCredentials \<Rightarrow> error + string"
  http_Post :: "string \<Rightarrow> string \<Rightarrow> string \<Rightarrow> error + http_response"
  json_Decode_LoginResponse :: "string \<Rightarrow> error + LoginResponse"
  exec_Output :: "string list \<Rightarrow> error + string"
  json_Unmarshal_VMInfos :: "string \<Rightarrow> error + VMInfo slice"
  json_Marshal_Response :: "Response \<Rightarrow> error + string"
  http_NewRequest :: "string \<Rightarrow> string \<Rightarrow> string \<Rightarrow> error + http_request"
  client_Do :: "http_request \<Rightarrow> error + http_response"

subsection \<open>login\<close>

definition StatusOK :: int where
  "StatusOK = 200"

definition login :: "world \<Rightarrow> LoginCredentials \<Rightarrow> string \<Rightarrow> error + LoginResponse" where
  "login w credentials loginEndpoint =
     (case json_Marshal_LoginCredentials w credentials of
        Inl err \<Rightarrow> Inl err
      | Inr body \<Rightarrow>
          (case http_Post w loginEndpoint ''application/json'' body of
             Inl err \<Rightarrow> Inl (LoginRequestFailed err)
           | Inr resp \<Rightarrow>
               if StatusCode resp \<noteq> StatusOK
               then Inl (LoginFailedWithStatusCode (StatusCode resp))
               else (case json_Decode_LoginResponse w (Body resp) of
                       Inl err \<Rightarrow> Inl (FailedToDecodeLoginResponse err)
                     | Inr loginResp \<Rightarrow> Inr loginResp)))"

subsection \<open>getVMs\<close>

text \<open>The struct literal of the loop body: the divisions are float64 divisions.\<close>

definition MiB :: float64 where
  "MiB = F64_Fin False (1024 * 1024)"

definition GiB :: float64 where
  "GiB = F64_Fin False (1024 * 1024 * 1024)"

definition new_vm :: "string \<Rightarrow> VMInfo \<Rightarrow> VMInfo" where
  "new_vm userID res =
     \<lparr> UserID = userID, Name = Name res, VMID = VMID res, Type = Type res,
       Status = Status res, CPU = CPU res, MaxCPU = MaxCPU res,
       Mem = float64_div (Mem res) MiB,
       MaxMem = float64_div (MaxMem res) MiB,
       Disk = float64_div (Disk res) GiB,
       MaxDisk = float64_div (MaxDisk res) GiB \<rparr>"

text \<open>
  The four assignments \<open>vm.F, _ = strconv.ParseFloat(fmt.Sprintf("%.2f", vm.F), 64)\<close>:
  the value is kept, the error dropped.
\<close>

definition round2 :: "float64 \<Rightarrow> float64" where
  "round2 x = fst (ParseFloat (Sprintf_2f x))"

definition round_fields :: "VMInfo \<Rightarrow> VMInfo" where
  "round_fields vm =
     vm \<lparr> Mem := round2 (Mem vm), MaxMem := round2 (MaxMem vm),
          Disk := round2 (Disk vm), MaxDisk := round2 (MaxDisk vm) \<rparr>"

definition convert :: "string \<Rightarrow> VMInfo \<Rightarrow> VMInfo" where
  "convert userID res = round_fields (new_vm userID res)"

definition wanted :: "VMInfo \<Rightarrow> bool" where
  "wanted res = (Type res = ''qemu'' \<or> Type res = ''lxc'')"

text \<open>The loop \<open>for _, res := range resources\<close>, with the slice \<open>vms\<close> it appends to.\<close>

fun range_loop :: "string \<Rightarrow> VMInfo list \<Rightarrow> VMInfo slice \<Rightarrow> VMInfo slice" where
  "range_loop userID [] vms = vms"
| "range_loop userID (res # rest) vms =
     (let vm = convert userID res
      in range_loop userID rest (if wanted res then append_slice vms vm else vms))"

definition pvesh_command :: "string list" where
  "pvesh_command = [''pvesh'', ''get'', ''/cluster/resources'', ''--output-format'', ''json'']"

definition getVMs :: "world \<Rightarrow> string \<Rightarrow> error + Response" where
  "getVMs w userID =
     (case exec_Output w pvesh_command of
        Inl err \<Rightarrow> Inl (FailedToExecutePvesh err)
      | Inr out \<Rightarrow>
          (case json_Unmarshal_VMInfos w out of
             Inl err \<Rightarrow> Inl (FailedToUnmarshalJSON err)
           | Inr resources \<Rightarrow>
               Inr \<lparr> UserId = userID,
                     Vms = range_loop userID (elems resources) (Slice []) \<rparr>))"

subsection \<open>sendToServer\<close>

definition sendToServer :: "world \<Rightarrow> Response \<Rightarrow> string \<Rightarrow> error + unit" where
  "sendToServer w vmList serverURL =
     (case json_Marshal_Response w vmList of
        Inl err \<Rightarrow> Inl err
      | Inr data \<Rightarrow>
          (case http_NewRequest w ''POST'' serverURL data of
             Inl err \<Rightarrow> Inl err
           | Inr req \<Rightarrow>
               (case client_Do w (req \<lparr> ContentType := ''application/json'' \<rparr>) of
                  Inl err \<Rightarrow> Inl err
                | Inr resp \<Rightarrow>
                    if StatusCode resp \<noteq> StatusOK
                    then Inl (ReceivedNonOKResponse (StatusLine resp))
                    else Inr ())))"

subsection \<open>The cron job and main\<close>

text \<open>
  What the process does is a list of events, in order. \<open>LogFatal\<close> is \<open>log.Fatal\<close>: it
  prints and exits, so it is the last event of a run. \<open>CallGetVMs\<close> and
  \<open>CallSendToServer\<close> mark the calls of the collector and of the dispatcher.
\<close>

datatype log_message =
    ErrorLoadingEnvFile
  | ErrorLoggingIn error
  | ErrorGettingVMList error
  | ErrorSendingVMList error

datatype event =
    LogFatal log_message
  | LogPrintf log_message
  | CronAddFunc string
  | CronStart
  | CallGetVMs
  | CallSendToServer Response string

text \<open>
  One firing of the job run from its first statement to its return: the body of the
  closure passed to \<open>c.AddFunc\<close>, reading the global \<open>userID\<close> and the captured
  \<open>vmListEndpoint\<close>, with the results \<open>w\<close> of the library calls it makes.
\<close>

definition tick :: "string \<Rightarrow> string \<Rightarrow> world \<Rightarrow> event list" where
  "tick userID vmListEndpoint w =
     CallGetVMs #
     (case getVMs w userID of
        Inl err \<Rightarrow> [LogPrintf (ErrorGettingVMList err)]
      | Inr vmList \<Rightarrow>
          (let response = \<lparr> UserId = userID, Vms = Vms vmList \<rparr>
           in CallSendToServer response vmListEndpoint #
              (case sendToServer w response vmListEndpoint of
                 Inl err \<Rightarrow> [LogPrintf (ErrorSendingVMList err)]
               | Inr u \<Rightarrow> [])))"

text \<open>
  The inputs of \<open>main\<close>: the result of \<open>godotenv.Load\<close>, the variable \<open>SERVER_URL\<close>, the
  two lines read from the terminal, and the world at login.
\<close>

record startup =
  godotenv_Load :: "error option"
  SERVER_URL :: string
  scanned_ID :: string
  scanned_Password :: string
  login_world :: world

text \<open>
  The scheduler. After \<open>c.Start()\<close> the run loop of cron starts every firing of the job
  in a goroutine of its own, in the order of the schedule, and does not wait for it: the
  goroutines of firings that overlap run interleaved, and main blocks in \<open>select {}\<close>.
  A goroutine runs in steps. A step reads and may write the package-level variable
  \<open>userID\<close>, emits events, and then goes on (\<open>Next\<close>), returns (\<open>Return\<close>) or ends the
  whole process (\<open>Exit\<close>, what \<open>log.Fatal\<close> or \<open>os.Exit\<close> in a job would do).
\<close>

datatype 'pc outcome = Next 'pc | Return | Exit

text \<open>
  The closure passed to \<open>c.AddFunc\<close>, as the steps of one goroutine. The control points
  are: before the call of \<open>getVMs\<close>; after it, holding its result; before the call of
  \<open>sendToServer\<close>, holding the response built from \<open>userID\<close> and \<open>vmList.Vms\<close>; after it,
  holding its result. \<open>w\<close> gives the results of the library calls this firing makes,
  \<open>g\<close> is the value of \<open>userID\<close> when the step runs. (\<open>getVMs\<close> reads \<open>userID\<close> while it
  runs; the step takes the value at its start.)
\<close>

datatype closure_pc =
    AtGetVMs
  | AtCheckErr "error + Response"
  | AtSend Response
  | AtCheckSend "error + unit"

fun closure_step ::
  "string \<Rightarrow> string \<Rightarrow> world \<Rightarrow> closure_pc \<Rightarrow> event list \<times> string \<times> closure_pc outcome"
where
  "closure_step vmListEndpoint g w AtGetVMs =
     ([CallGetVMs], g, Next (AtCheckErr (getVMs w g)))"
| "closure_step vmListEndpoint g w (AtCheckErr (Inl err)) =
     ([LogPrintf (ErrorGettingVMList err)], g, Return)"
| "closure_step vmListEndpoint g w (AtCheckErr (Inr vmList)) =
     ([], g, Next (AtSend \<lparr> UserId = g, Vms = Vms vmList \<rparr>))"
| "closure_step vmListEndpoint g w (AtSend response) =
     ([CallSendToServer response vmListEndpoint], g,
      Next (AtCheckSend (sendToServer w response vmListEndpoint)))"
| "closure_step vmListEndpoint g w (AtCheckSend (Inl err)) =
     ([LogPrintf (ErrorSendingVMList err)], g, Return)"
| "closure_step vmListEndpoint g w (AtCheckSend (Inr u)) =
     ([], g, Return)"

text \<open>
  The process after \<open>c.Start()\<close>: the variable \<open>userID\<close>; the firings still to come, each
  with the world it will meet; the number of firings started so far (a firing is named
  by its number); the goroutines that have not returned, each with its world and its
  control point; the events so far, each with the number of the firing that emitted it;
  and whether the process has ended.
\<close>

record 'pc process =
  p_userID :: string
  p_pending :: "world list"
  p_started :: nat
  p_goroutines :: "nat \<Rightarrow> (world \<times> 'pc) option"
  p_trace :: "(nat \<times> event) list"
  p_exited :: bool

text \<open>
  What happens next is a choice of the Go runtime and of the clock: the run loop starts
  the next firing (\<open>Fire\<close>), or the goroutine of a firing takes its next step (\<open>Step\<close>). A
  choice that cannot be taken (no firing left, a goroutine that has not started or has
  returned) changes nothing, and nothing happens in a process that has ended. The job is
  given by its first control point and its step function.
\<close>

datatype choice = Fire | Step nat

definition exec_choice ::
  "'pc \<Rightarrow> (string \<Rightarrow> world \<Rightarrow> 'pc \<Rightarrow> event list \<times> string \<times> 'pc outcome) \<Rightarrow>
   'pc process \<Rightarrow> choice \<Rightarrow> 'pc process"
where
  "exec_choice start step c ch =
     (if p_exited c then c
      else case ch of
        Fire \<Rightarrow>
          (case p_pending c of
             [] \<Rightarrow> c
           | w # ws \<Rightarrow>
               c \<lparr> p_pending := ws, p_started := Suc (p_started c),
                   p_goroutines := (p_goroutines c)(p_started c \<mapsto> (w, start)) \<rparr>)
      | Step i \<Rightarrow>
          (case p_goroutines c i of
             None \<Rightarrow> c
           | Some (w, pc) \<Rightarrow>
               (case step (p_userID c) w pc of
                  (evs, g, out) \<Rightarrow>
                    c \<lparr> p_userID := g,
                        p_trace := p_trace c @ map (Pair i) evs,
                        p_goroutines :=
                          (case out of
                             Next pc' \<Rightarrow> (p_goroutines c)(i \<mapsto> (w, pc'))
                           | Return \<Rightarrow> (p_goroutines c)(i := None)
                           | Exit \<Rightarrow> p_goroutines c),
                        p_exited := (out = Exit) \<rparr>)))"

definition run ::
  "'pc \<Rightarrow> (string \<Rightarrow> world \<Rightarrow> 'pc \<Rightarrow> event list \<times> string \<times> 'pc outcome) \<Rightarrow>
   choice list \<Rightarrow> 'pc process \<Rightarrow> 'pc process"
where
  "run start step choices c = foldl (exec_choice start step) c choices"

definition init_process :: "string \<Rightarrow> world list \<Rightarrow> 'pc process" where
  "init_process userID ticks =
     \<lparr> p_userID = userID, p_pending = ticks, p_started = 0,
       p_goroutines = (\<lambda>i. None), p_trace = [], p_exited = False \<rparr>"

text \<open>
  The process of this program after a sequence of choices: the job is the closure, and
  \<open>ticks\<close> holds the world of each firing, in the order of the schedule.
\<close>

definition cron_run :: "string \<Rightarrow> string \<Rightarrow> world list \<Rightarrow> choice list \<Rightarrow> closure_pc process" where
  "cron_run userID vmListEndpoint ticks choices =
     run AtGetVMs (closure_step vmListEndpoint) choices (init_process userID ticks)"

text \<open>The events that firing \<open>i\<close> has emitted so far, in order.\<close>

definition events_of :: "nat \<Rightarrow> 'pc process \<Rightarrow> event list" where
  "events_of i c = map snd (filter (\<lambda>x. fst x = i) (p_trace c))"

text \<open>A firing has returned when it was started and its goroutine is gone.\<close>

definition returned :: "nat \<Rightarrow> 'pc process \<Rightarrow> bool" where
  "returned i c = (i < p_started c \<and> p_goroutines c i = None)"

text \<open>
  \<open>main\<close>, up to a sequence of choices after \<open>c.Start()\<close>: the events of the process in
  the order in which they happen. \<open>log.Fatal\<close> ends the process, so nothing follows it.
\<close>

definition main :: "startup \<Rightarrow> world list \<Rightarrow> choice list \<Rightarrow> event list" where
  "main s ticks choices =
     (case godotenv_Load s of
        Some err \<Rightarrow> [LogFatal ErrorLoadingEnvFile]
      | None \<Rightarrow>
          (let serverURL = SERVER_URL s;
               loginEndpoint = serverURL @ ''/api/user/login'';
               vmListEndpoint = serverURL @ ''/api/vm/list'';
               credentials = \<lparr> ID = scanned_ID s, Password = scanned_Password s \<rparr>
           in case login (login_world s) credentials loginEndpoint of
                Inl err \<Rightarrow> [LogFatal (ErrorLoggingIn err)]
              | Inr loginResp \<Rightarrow>
                  CronAddFunc ''*/5 * * * *'' # CronStart #
                  map snd (p_trace (cron_run (lr_UserID loginResp) vmListEndpoint ticks choices))))"

subsection \<open>What a firing has emitted and what it has left to do\<close>

text \<open>
  What a goroutine of the closure at a control point still emits before it returns, when
  \<open>userID\<close> has the value \<open>uid\<close> throughout.
\<close>

fun to_come :: "string \<Rightarrow> string \<Rightarrow> world \<Rightarrow> closure_pc \<Rightarrow> event list" where
  "to_come uid ep w AtGetVMs = tick uid ep w"
| "to_come uid ep w (AtCheckErr (Inl err)) = [LogPrintf (ErrorGettingVMList err)]"
| "to_come uid ep w (AtCheckErr (Inr vmList)) =
     CallSendToServer \<lparr> UserId = uid, Vms = Vms vmList \<rparr> ep #
     (case sendToServer w \<lparr> UserId = uid, Vms = Vms vmList \<rparr> ep of
        Inl err \<Rightarrow> [LogPrintf (ErrorSendingVMList err)]
      | Inr u \<Rightarrow> [])"
| "to_come uid ep w (AtSend response) =
     CallSendToServer response ep #
     (case sendToServer w response ep of
        Inl err \<Rightarrow> [LogPrintf (ErrorSendingVMList err)]
      | Inr u \<Rightarrow> [])"
| "to_come uid ep w (AtCheckSend (Inl err)) = [LogPrintf (ErrorSendingVMList err)]"
| "to_come uid ep w (AtCheckSend (Inr u)) = []"

text \<open>
  The state of firing \<open>i\<close> in a process fits the closure: a firing that has not been
  started has no goroutine and no events; a firing that has returned has emitted what
  the closure emits when run by itself; a firing under way has emitted so much that what
  is to come completes it. The invariant of the process adds that \<open>userID\<close> has the
  value set at login, that the process has not ended, and that the firings still to come
  are those of the schedule that were not started.
\<close>

definition firing_ok ::
  "string \<Rightarrow> string \<Rightarrow> world list \<Rightarrow> closure_pc process \<Rightarrow> nat \<Rightarrow> bool"
where
  "firing_ok uid ep ticks c i =
     (if i < p_started c
      then (case p_goroutines c i of
              None \<Rightarrow> events_of i c = tick uid ep (ticks ! i)
            | Some (w, pc) \<Rightarrow>
                w = ticks ! i \<and> events_of i c @ to_come uid ep w pc = tick uid ep w)
      else p_goroutines c i = None \<and> events_of i c = [])"

definition cron_inv ::
  "string \<Rightarrow> string \<Rightarrow> world list \<Rightarrow> closure_pc process \<Rightarrow> bool"
where
  "cron_inv uid ep ticks c =
     (p_userID c = uid \<and> \<not> p_exited c \<and> p_started c \<le> length ticks \<and>
      p_pending c = drop (p_started c) ticks \<and> (\<forall>i. firing_ok uid ep ticks c i))"

text \<open>
  The number of steps a goroutine of the closure takes at most before it returns.
\<close>

fun steps_left :: "closure_pc \<Rightarrow> nat" where
  "steps_left AtGetVMs = 4"
| "steps_left (AtCheckErr r) = 3"
| "steps_left (AtSend r) = 2"
| "steps_left (AtCheckSend r) = 1"

definition remaining :: "closure_pc process \<Rightarrow> nat \<Rightarrow> nat" where
  "remaining c i = (case p_goroutines c i of None \<Rightarrow> 0 | Some (w, pc) \<Rightarrow> steps_left pc)"

text \<open>
  The choices \<open>finish js\<close> give four steps to each of the firings \<open>js\<close> in turn. The
  choices \<open>drain n\<close> start \<open>n\<close> firings and then let the goroutines of the firings
  \<open>0\<close> to \<open>n - 1\<close> run to their return, one after the other: one of the orders in which
  the runtime may go on from any state of the process.
\<close>

definition finish :: "nat list \<Rightarrow> choice list" where
  "finish js = concat (map (\<lambda>i. replicate 4 (Step i)) js)"

definition drain :: "nat \<Rightarrow> choice list" where
  "drain n = replicate n Fire @ finish [0..<n]"

subsection \<open>Sample worlds\<close>

text \<open>
  Concrete inputs on which the theorems below are exercised: a host with a virtual
  machine, a node entry and a container; a collector that answers 200; and variants in
  which one collaborator fails.
\<close>

definition sample_vm :: "string \<Rightarrow> string \<Rightarrow> float64 \<Rightarrow> VMInfo" where
  "sample_vm n t m =
     \<lparr> UserID = ''someone-else'', Name = n, VMID = 100, Type = t, Status = ''running'',
       CPU = F64_Fin False 0, MaxCPU = 2, Mem = m, MaxMem = m, Disk = m, MaxDisk = m \<rparr>"

definition sample_resources :: "VMInfo list" where
  "sample_resources =
     [sample_vm ''web'' ''qemu'' (F64_Fin False 2147483648),
      sample_vm ''pve'' ''node'' (F64_Fin False 0),
      sample_vm ''db'' ''lxc'' (F64_Fin False 0)]"

definition ok_response :: http_response where
  "ok_response = \<lparr> StatusCode = 200, StatusLine = ''200 OK'', Body = ''{}'' \<rparr>"

definition sample_login :: LoginResponse where
  "sample_login = \<lparr> lr_UserID = ''alice'', AccessToken = ''a'', RefreshToken = ''r'' \<rparr>"

definition world_ok :: world where
  "world_ok =
     \<lparr> json_Marshal_LoginCredentials = (\<lambda>c. Inr ''{}''),
       http_Post = (\<lambda>url ct body. Inr ok_response),
       json_Decode_LoginResponse = (\<lambda>b. Inr sample_login),
       exec_Output = (\<lambda>cmd. Inr ''[]''),
       json_Unmarshal_VMInfos = (\<lambda>out. Inr (Slice sample_resources)),
       json_Marshal_Response = (\<lambda>r. Inr ''{}''),
       http_NewRequest =
         (\<lambda>m url body. Inr \<lparr> Method = m, URL = url, ContentType = [], Payload = body \<rparr>),
       client_Do = (\<lambda>req. Inr ok_response) \<rparr>"

definition world_401 :: world where
  "world_401 =
     world_ok \<lparr> http_Post :=
       (\<lambda>url ct body.
          Inr \<lparr> StatusCode = 401, StatusLine = ''401 Unauthorized'', Body = [] \<rparr>) \<rparr>"

definition world_pvesh_fails :: world where
  "world_pvesh_fails = world_ok \<lparr> exec_Output := (\<lambda>cmd. Inl (Lib ''exit status 1'')) \<rparr>"

definition world_500 :: world where
  "world_500 =
     world_ok \<lparr> client_Do :=
       (\<lambda>req.
          Inr \<lparr> StatusCode = 500, StatusLine = ''500 Internal Server Error'',
                Body = [] \<rparr>) \<rparr>"

definition world_no_guests :: world where
  "world_no_guests =
     world_ok \<lparr> json_Unmarshal_VMInfos :=
       (\<lambda>out. Inr (Slice [sample_vm ''pve'' ''node'' (F64_Fin False 0)])) \<rparr>"

definition world_offline :: world where
  "world_offline =
     world_ok \<lparr> http_Post := (\<lambda>url ct body. Inl (Lib ''connection refused'')),
                client_Do := (\<lambda>req. Inl (Lib ''connection refused'')) \<rparr>"

definition world_bad_body :: world where
  "world_bad_body =
     world_ok \<lparr> json_Decode_LoginResponse := (\<lambda>b. Inl (Lib ''unexpected EOF'')) \<rparr>"

definition world_bad_json :: world where
  "world_bad_json =
     world_ok \<lparr> json_Unmarshal_VMInfos :=
       (\<lambda>out. Inl (Lib ''unexpected end of JSON input'')) \<rparr>"

definition sample_startup :: "world \<Rightarrow> startup" where
  "sample_startup w =
     \<lparr> godotenv_Load = None, SERVER_URL = ''http://c'', scanned_ID = ''alice'',
       scanned_Password = ''pw'', login_world = w \<rparr>"

section \<open>Rounding to binary64\<close>

declare digits.simps [simp del]

lemma pow2_pos: "0 < pow2 k" by (simp add: pow2_def)

lemma pow2_powi: "pow2 k = 2 powi k"
  by (simp add: pow2_def power_int_def field_simps)

lemma pow2_add: "pow2 (a + b) = pow2 a * pow2 b"
  by (simp add: pow2_powi power_int_add)

lemma pow2_mono: "a \<le> b \<Longrightarrow> pow2 a \<le> pow2 b"
  by (simp add: pow2_powi power_int_increasing)

lemma pow2_strict_mono: "a < b \<Longrightarrow> pow2 a < pow2 b"
  by (simp add: pow2_powi power_int_strict_increasing)

lemma pow2_less_cancel: "pow2 a < pow2 b \<Longrightarrow> a < b"
  using pow2_mono [of b a] by (cases "a < b") auto

lemma pow2_nonneg_int: "0 \<le> k \<Longrightarrow> pow2 k = of_int (2 ^ nat k)"
  by (simp add: pow2_def)

lemma bitlen_pow2_bounds:
  assumes "0 < n"
  shows "pow2 (bitlen n - 1) \<le> of_int n" and "of_int n < pow2 (bitlen n)"
proof -
  have b: "1 \<le> bitlen n" using assms by (simp add: bitlen_alt_def)
  have "(2::int) ^ nat (bitlen n - 1) \<le> n" "n < 2 ^ nat (bitlen n)"
    using bitlen_bounds [OF assms] by auto
  then have "(of_int (2 ^ nat (bitlen n - 1)) :: rat) \<le> of_int n"
    "(of_int n :: rat) < of_int (2 ^ nat (bitlen n))"
    by (simp_all only: of_int_le_iff of_int_less_iff)
  then show "pow2 (bitlen n - 1) \<le> of_int n" "of_int n < pow2 (bitlen n)"
    using b by (simp_all add: pow2_nonneg_int)
qed

lemma ilog2_bounds:
  assumes "0 < q"
  shows "pow2 (ilog2 q) \<le> q \<and> q < pow2 (ilog2 q + 1)"
proof -
  obtain n d where nd: "quotient_of q = (n, d)" by (cases "quotient_of q")
  have d: "0 < d" using nd by (rule quotient_of_denom_pos)
  have q: "q = of_int n / of_int d" using nd by (rule quotient_of_div)
  have n: "0 < n" using assms d unfolding q by (simp add: zero_less_divide_iff)
  define k where "k = bitlen n - bitlen d"
  have qd: "q * of_int d = of_int n" using d by (simp add: q)
  have dpos: "(0::rat) < of_int d" using d by simp
  have "pow2 (k - 1) * of_int d < pow2 (k - 1) * pow2 (bitlen d)"
    using bitlen_pow2_bounds(2) [OF d] pow2_pos [of "k - 1"] by simp
  also have "\<dots> = pow2 (bitlen n - 1)"
    by (simp add: pow2_add [symmetric] k_def)
  also have "\<dots> \<le> q * of_int d"
    using bitlen_pow2_bounds(1) [OF n] by (simp add: qd)
  finally have lo: "pow2 (k - 1) < q" using dpos by simp
  have "q * of_int d < pow2 (bitlen n)"
    using bitlen_pow2_bounds(2) [OF n] by (simp add: qd)
  also have "\<dots> = pow2 (k + 1) * pow2 (bitlen d - 1)"
    by (simp add: pow2_add [symmetric] k_def)
  also have "\<dots> \<le> pow2 (k + 1) * of_int d"
    using bitlen_pow2_bounds(1) [OF d] pow2_pos [of "k + 1"] by simp
  finally have hi: "q < pow2 (k + 1)" using dpos by simp
  show ?thesis
  proof (cases "pow2 k \<le> q")
    case True
    then show ?thesis using hi by (simp add: ilog2_def nd k_def [symmetric])
  next
    case False
    then show ?thesis using lo by (simp add: ilog2_def nd k_def [symmetric])
  qed
qed

lemma ilog2_eqI:
  assumes "pow2 k \<le> q" and "q < pow2 (k + 1)"
  shows "ilog2 q = k"
proof -
  have q: "0 < q" using assms(1) pow2_pos [of k] by simp
  from ilog2_bounds [OF q] have b: "pow2 (ilog2 q) \<le> q" "q < pow2 (ilog2 q + 1)" by auto
  have "pow2 k < pow2 (ilog2 q + 1)" using assms(1) b(2) by simp
  then have 1: "k < ilog2 q + 1" by (rule pow2_less_cancel)
  have "pow2 (ilog2 q) < pow2 (k + 1)" using assms(2) b(1) by simp
  then have 2: "ilog2 q < k + 1" by (rule pow2_less_cancel)
  from 1 2 show ?thesis by simp
qed

lemma rhe_of_int [simp]: "round_half_even (of_int k) = k"
  by (simp add: round_half_even_def)

lemma rhe_error: "\<bar>of_int (round_half_even t) - t\<bar> \<le> 1 / 2"
proof -
  have "of_int \<lfloor>t\<rfloor> \<le> t" "t < of_int \<lfloor>t\<rfloor> + 1" by linarith+
  then show ?thesis by (auto simp: round_half_even_def Let_def abs_le_iff)
qed

lemma rhe_near:
  assumes "\<bar>t - of_int k\<bar> < 1 / 2"
  shows "round_half_even t = k"
proof -
  have "\<bar>(of_int (round_half_even t) :: rat) - of_int k\<bar> < 1"
    using rhe_error [of t] assms by linarith
  then have "\<bar>(of_int (round_half_even t - k) :: rat)\<bar> < 1" by simp
  then have "\<bar>round_half_even t - k\<bar> < 1"
    by (metis of_int_abs of_int_less_1_iff)
  then show ?thesis by simp
qed

lemma rhe_ge: "of_int k \<le> t \<Longrightarrow> k \<le> round_half_even t"
proof -
  assume "of_int k \<le> t"
  then have "k \<le> \<lfloor>t\<rfloor>" by (simp add: le_floor_iff)
  then show ?thesis by (auto simp: round_half_even_def Let_def)
qed

lemma rhe_le: "t \<le> of_int k \<Longrightarrow> round_half_even t \<le> k"
proof -
  assume a: "t \<le> of_int k"
  show ?thesis
  proof (cases "t = of_int k")
    case True then show ?thesis by simp
  next
    case False
    then have "t < of_int k" using a by simp
    then have "\<lfloor>t\<rfloor> < k" by (simp add: floor_less_iff)
    then show ?thesis by (auto simp: round_half_even_def Let_def)
  qed
qed

lemma ilog2_le:
  assumes "0 < q" and "q < pow2 (k + 1)"
  shows "ilog2 q \<le> k"
proof -
  have "pow2 (ilog2 q) < pow2 (k + 1)"
    using ilog2_bounds [OF assms(1)] assms(2) by simp
  then have "ilog2 q < k + 1" by (rule pow2_less_cancel)
  then show ?thesis by simp
qed

lemma ilog2_ge:
  assumes "pow2 k \<le> q"
  shows "k \<le> ilog2 q"
proof -
  have q: "0 < q" using assms pow2_pos [of k] by simp
  have "pow2 k < pow2 (ilog2 q + 1)"
    using ilog2_bounds [OF q] assms by simp
  then have "k < ilog2 q + 1" by (rule pow2_less_cancel)
  then show ?thesis by simp
qed

lemma ulp_exp_ge: "- 1074 \<le> ulp_exp q"
  by (simp add: ulp_exp_def)

lemma ulp_exp_normal:
  assumes "pow2 (- 1022) \<le> q"
  shows "ulp_exp q = ilog2 q - 52"
proof -
  have q: "0 < q" using assms pow2_pos [of "- 1022"] by simp
  have "- 1022 \<le> ilog2 q" using assms by (rule ilog2_ge)
  then show ?thesis using q by (simp add: ulp_exp_def)
qed

lemma mantissa_less:
  assumes "0 < q"
  shows "q / pow2 (ulp_exp q) < 2 ^ 53"
proof -
  have "ilog2 q + 1 \<le> ulp_exp q + 53" using assms by (simp add: ulp_exp_def)
  then have "pow2 (ilog2 q + 1) \<le> pow2 (ulp_exp q + 53)" by (rule pow2_mono)
  then have "q < pow2 (ulp_exp q + 53)" using ilog2_bounds [OF assms] by simp
  also have "\<dots> = pow2 (ulp_exp q) * 2 ^ 53" by (simp add: pow2_add) (simp add: pow2_def)
  finally show ?thesis using pow2_pos [of "ulp_exp q"] by (simp add: field_simps)
qed

lemma mantissa_ge:
  assumes "pow2 (- 1022) \<le> q"
  shows "2 ^ 52 \<le> q / pow2 (ulp_exp q)"
proof -
  have q: "0 < q" using assms pow2_pos [of "- 1022"] by simp
  have e: "ulp_exp q = ilog2 q - 52" using assms by (rule ulp_exp_normal)
  have "pow2 (ulp_exp q) * 2 ^ 52 = pow2 (ulp_exp q + 52)"
    by (simp add: pow2_add) (simp add: pow2_def)
  also have "\<dots> \<le> q" using ilog2_bounds [OF q] by (simp add: e)
  finally show ?thesis using pow2_pos [of "ulp_exp q"] by (simp add: field_simps)
qed

text \<open>A number in the canonical form of binary64 is its own rounding.\<close>

lemma ulp_exp_canonical:
  assumes "0 < k" and "k < 2 ^ 53" and "- 1074 \<le> e"
    and "- 1074 < e \<Longrightarrow> 2 ^ 52 \<le> k"
  shows "ulp_exp (of_int k * pow2 e) = e"
proof -
  let ?q = "of_int k * pow2 e"
  have q: "0 < ?q" using assms(1) pow2_pos [of e] by simp
  have "(of_int k :: rat) < 2 ^ 53" using assms(2) by (metis of_int_less_numeral_power_cancel_iff)
  then have "?q < 2 ^ 53 * pow2 e" using pow2_pos [of e] by simp
  also have "\<dots> = pow2 (e + 52 + 1)" by (simp add: pow2_add) (simp add: pow2_def)
  finally have up: "?q < pow2 (e + 52 + 1)" .
  show ?thesis
  proof (cases "- 1074 < e")
    case True
    then have "(2::int) ^ 52 \<le> k" by (rule assms(4))
    then have "(2::rat) ^ 52 \<le> of_int k" by (metis of_int_numeral_le_iff numeral_power_le_of_int_cancel_iff)
    then have "2 ^ 52 * pow2 e \<le> ?q" using pow2_pos [of e] by simp
    moreover have "2 ^ 52 * pow2 e = pow2 (e + 52)" by (simp add: pow2_add) (simp add: pow2_def)
    ultimately have "pow2 (e + 52) \<le> ?q" by simp
    then have "ilog2 ?q = e + 52" using up by (rule ilog2_eqI)
    then show ?thesis using q True by (simp add: ulp_exp_def)
  next
    case False
    then have e: "e = - 1074" using assms(3) by simp
    have "ilog2 ?q \<le> e + 52" using q up by (rule ilog2_le)
    then show ?thesis using q unfolding e by (simp add: ulp_exp_def)
  qed
qed

lemma rhe_0 [simp]: "round_half_even 0 = 0"
  by (simp add: round_half_even_def)

lemma round_binary64_0 [simp]: "round_binary64 0 = 0"
  by (simp add: round_binary64_def)

lemma round_binary64_canonical:
  assumes "0 \<le> k" and "k < 2 ^ 53" and "- 1074 \<le> e"
    and "- 1074 < e \<Longrightarrow> 2 ^ 52 \<le> k"
  shows "round_binary64 (of_int k * pow2 e) = of_int k * pow2 e"
proof (cases "k = 0")
  case True
  then show ?thesis by simp
next
  case False
  then have k: "0 < k" using assms(1) by simp
  have e: "ulp_exp (of_int k * pow2 e) = e"
    using k assms(2,3,4) by (rule ulp_exp_canonical)
  have "of_int k * pow2 e / pow2 e = (of_int k :: rat)" using pow2_pos [of e] by simp
  then show ?thesis by (simp add: round_binary64_def e)
qed

lemma rhe_nonneg: "0 \<le> t \<Longrightarrow> 0 \<le> round_half_even t"
  using rhe_ge [of 0 t] by simp

lemma pow2_plus_52: "pow2 (e + 52) = 2 ^ 52 * pow2 e"
  by (simp add: pow2_add) (simp add: pow2_def)

lemma pow2_plus_53: "pow2 (e + 53) = 2 ^ 53 * pow2 e"
  by (simp add: pow2_add) (simp add: pow2_def)

lemma pow2_plus_1: "pow2 (e + 1) = 2 * pow2 e"
  by (simp add: pow2_add) (simp add: pow2_def)

text \<open>The rounding of a positive number, as mantissa and exponent.\<close>

lemma round_binary64_mantissa:
  assumes "0 < q"
  defines "m \<equiv> round_half_even (q / pow2 (ulp_exp q))"
  shows "round_binary64 q = of_int m * pow2 (ulp_exp q)"
    and "0 \<le> m" and "m \<le> 2 ^ 53"
    and "pow2 (- 1022) \<le> q \<Longrightarrow> 2 ^ 52 \<le> m"
    and "\<bar>round_binary64 q - q\<bar> \<le> pow2 (ulp_exp q) / 2"
proof -
  let ?e = "ulp_exp q"
  let ?t = "q / pow2 ?e"
  have p: "0 < pow2 ?e" by (rule pow2_pos)
  show r: "round_binary64 q = of_int m * pow2 ?e"
    by (simp add: round_binary64_def m_def)
  have "0 \<le> ?t" using assms(1) p by simp
  then show "0 \<le> m" unfolding m_def by (rule rhe_nonneg)
  have "?t \<le> of_int (2 ^ 53)" using mantissa_less [OF assms(1)] by simp
  then show "m \<le> 2 ^ 53" unfolding m_def by (rule rhe_le)
  show "2 ^ 52 \<le> m" if "pow2 (- 1022) \<le> q"
  proof -
    have "of_int (2 ^ 52) \<le> ?t" using mantissa_ge [OF that] by simp
    then show ?thesis unfolding m_def by (rule rhe_ge)
  qed
  have "\<bar>of_int m - ?t\<bar> \<le> 1 / 2" unfolding m_def by (rule rhe_error)
  then have "\<bar>of_int m - ?t\<bar> * pow2 ?e \<le> 1 / 2 * pow2 ?e"
    using p by (simp only: mult_le_cancel_right_pos)
  moreover have "\<bar>of_int m - ?t\<bar> * pow2 ?e = \<bar>of_int m * pow2 ?e - q\<bar>"
  proof -
    have "\<bar>of_int m - ?t\<bar> * pow2 ?e = \<bar>(of_int m - ?t) * pow2 ?e\<bar>"
      using p by (simp add: abs_mult)
    also have "(of_int m - ?t) * pow2 ?e = of_int m * pow2 ?e - q"
      using p by (simp add: field_simps)
    finally show ?thesis .
  qed
  ultimately show "\<bar>round_binary64 q - q\<bar> \<le> pow2 ?e / 2" by (simp add: r)
qed

text \<open>Every rounding is a number in canonical form.\<close>

lemma round_binary64_is_canonical:
  assumes "0 \<le> q"
  shows "\<exists>k e. round_binary64 q = of_int k * pow2 e \<and> 0 \<le> k \<and> k < 2 ^ 53 \<and>
           - 1074 \<le> e \<and> (- 1074 < e \<longrightarrow> 2 ^ 52 \<le> k)"
proof (cases "q = 0")
  case True
  then have "round_binary64 q = of_int 0 * pow2 (- 1074)" by simp
  then show ?thesis by (intro exI [of _ 0] exI [of _ "- 1074"]) simp
next
  case False
  then have q: "0 < q" using assms by simp
  define e where "e = ulp_exp q"
  define m where "m = round_half_even (q / pow2 e)"
  note rm = round_binary64_mantissa [OF q, folded e_def, folded m_def]
  have e: "- 1074 \<le> e" unfolding e_def by (rule ulp_exp_ge)
  have norm: "2 ^ 52 \<le> m" if "- 1074 < e"
  proof -
    have "- 1022 \<le> ilog2 q" using that q by (simp add: e_def ulp_exp_def)
    then have "pow2 (- 1022) \<le> pow2 (ilog2 q)" by (rule pow2_mono)
    then have "pow2 (- 1022) \<le> q" using ilog2_bounds [OF q] by simp
    then show ?thesis by (rule rm(4))
  qed
  show ?thesis
  proof (cases "m = 2 ^ 53")
    case True
    have "round_binary64 q = of_int (2 ^ 52) * pow2 (e + 1)"
      by (simp add: rm(1) True pow2_plus_1)
    then show ?thesis using e by (intro exI [of _ "2 ^ 52"] exI [of _ "e + 1"]) simp
  next
    case False
    then have "m < 2 ^ 53" using rm(3) by simp
    then show ?thesis using rm(1,2) e norm by (intro exI [of _ m] exI [of _ e]) simp
  qed
qed

lemma round_binary64_idem:
  assumes "0 \<le> q"
  shows "round_binary64 (round_binary64 q) = round_binary64 q"
proof -
  from round_binary64_is_canonical [OF assms] obtain k e where
    "round_binary64 q = of_int k * pow2 e" "0 \<le> k" "k < 2 ^ 53" "- 1074 \<le> e"
    "- 1074 < e \<Longrightarrow> 2 ^ 52 \<le> k" by blast
  then show ?thesis by (simp add: round_binary64_canonical)
qed

lemma is_binary64_canonical:
  assumes "0 \<le> k" and "k < 2 ^ 53" and "- 1074 \<le> e"
    and "- 1074 < e \<Longrightarrow> 2 ^ 52 \<le> k"
    and "of_int k * pow2 e < 2 ^ 1024"
  shows "is_binary64 (of_int k * pow2 e)"
proof (cases "k = 0")
  case True
  then show ?thesis by (simp add: is_binary64_def)
next
  case False
  then have k: "0 < k" using assms(1) by simp
  have e: "ulp_exp (of_int k * pow2 e) = e"
    using k assms(2,3,4) by (rule ulp_exp_canonical)
  have "of_int k * pow2 e / pow2 e = (of_int k :: rat)" using pow2_pos [of e] by simp
  moreover have "0 \<le> of_int k * pow2 e" using assms(1) pow2_pos [of e] by simp
  ultimately show ?thesis using assms(5) by (simp add: is_binary64_def e)
qed

lemma is_binary64_round:
  assumes "0 \<le> q" and "\<not> overflows (round_binary64 q)"
  shows "is_binary64 (round_binary64 q)"
proof -
  from round_binary64_is_canonical [OF assms(1)] obtain k e where
    c: "round_binary64 q = of_int k * pow2 e" "0 \<le> k" "k < 2 ^ 53" "- 1074 \<le> e"
    "- 1074 < e \<Longrightarrow> 2 ^ 52 \<le> k" by blast
  have "of_int k * pow2 e < 2 ^ 1024" using assms(2) by (simp add: overflows_def c(1))
  with c(2-5) show ?thesis unfolding c(1) by (rule is_binary64_canonical)
qed

section \<open>Rounding to hundredths and back\<close>

lemma hundredths_of_nat [simp]: "hundredths (of_nat n / 100) = n"
proof -
  have "of_nat n / 100 * 100 = (of_int (int n) :: rat)" by simp
  then show ?thesis unfolding hundredths_def by (simp only: rhe_of_int nat_int)
qed

lemma hundredths_int:
  assumes "0 \<le> k"
  shows "of_nat (hundredths (of_int k)) / 100 = (of_int k :: rat)"
proof -
  have "(of_int k :: rat) * 100 = of_int (k * 100)" by simp
  then have "hundredths (of_int k) = nat (k * 100)"
    unfolding hundredths_def by (simp only: rhe_of_int)
  then show ?thesis using assms by simp
qed

lemma hundredths_error:
  assumes "0 \<le> q"
  shows "\<bar>of_nat (hundredths q) / 100 - q\<bar> \<le> 1 / 200"
proof -
  have "0 \<le> round_half_even (q * 100)" using assms by (simp add: rhe_nonneg)
  then have "(of_nat (hundredths q) :: rat) = of_int (round_half_even (q * 100))"
    by (simp add: hundredths_def)
  then show ?thesis using rhe_error [of "q * 100"] by (simp add: abs_le_iff field_simps)
qed

lemma hundredths_near:
  assumes "\<bar>q - of_nat n / 100\<bar> < 1 / 200"
  shows "hundredths q = n"
proof -
  have "\<bar>q * 100 - of_int (int n)\<bar> < 1 / 2" using assms by (simp add: abs_less_iff field_simps)
  then have "round_half_even (q * 100) = int n" by (rule rhe_near)
  then show ?thesis by (simp add: hundredths_def)
qed

lemma hundredths_ge:
  assumes "of_int k \<le> q" and "0 \<le> k"
  shows "of_int k \<le> (of_nat (hundredths q) / 100 :: rat)"
proof -
  have "of_int (k * 100) \<le> q * 100" using assms(1) by simp
  then have "k * 100 \<le> round_half_even (q * 100)" by (rule rhe_ge)
  then have "k * 100 \<le> int (hundredths q)" by (simp add: hundredths_def)
  then have "(of_int (k * 100) :: rat) \<le> of_int (int (hundredths q))"
    by (simp only: of_int_le_iff)
  then show ?thesis by simp
qed

lemma hundredths_less:
  assumes "q \<le> of_int k - 1 / 64" and "0 \<le> q"
  shows "(of_nat (hundredths q) / 100 :: rat) < of_int k"
proof -
  have "q * 100 \<le> of_int (k * 100 - 1)" using assms(1) by simp
  then have "round_half_even (q * 100) \<le> k * 100 - 1" by (rule rhe_le)
  moreover have "0 \<le> round_half_even (q * 100)" using assms(2) by (simp add: rhe_nonneg)
  ultimately have "int (hundredths q) \<le> k * 100 - 1" by (simp add: hundredths_def)
  then have "(of_int (int (hundredths q)) :: rat) \<le> of_int (k * 100 - 1)"
    by (simp only: of_int_le_iff)
  then show ?thesis by simp
qed

lemma pow2_m7: "pow2 (- 7) = 1 / 128" by (simp add: pow2_def)
lemma pow2_m6: "pow2 (- 6) = 1 / 64" by (simp add: pow2_def)

text \<open>
  The nearest float64 to a number of hundredths prints as that number again, or is so
  large that it is a whole number of 64ths and is the nearest float64 to what it prints
  as.
\<close>

lemma round_trip_hundredths:
  fixes n :: nat
  shows "round_binary64 (of_nat (hundredths (round_binary64 (of_nat n / 100))) / 100)
           = round_binary64 (of_nat n / 100)"
proof (cases "n = 0")
  case True
  moreover have "hundredths 0 = 0" by (simp add: hundredths_def)
  ultimately show ?thesis by simp
next
  case False
  define d where "d = (of_nat n / 100 :: rat)"
  from False have "(1::rat) \<le> of_nat n" by simp
  then have d100: "1 / 100 \<le> d" by (simp add: d_def)
  have "pow2 (- 1022) \<le> pow2 (- 7)" by (rule pow2_mono) simp
  then have dn: "pow2 (- 1022) \<le> d" using d100 by (simp add: pow2_m7)
  have d0: "0 < d" using d100 by simp
  define e where "e = ulp_exp d"
  define m where "m = round_half_even (d / pow2 e)"
  define y where "y = round_binary64 d"
  note rm = round_binary64_mantissa [OF d0, folded e_def, folded m_def, folded y_def]
  have m52: "2 ^ 52 \<le> m" using dn by (rule rm(4))
  have pe: "0 < pow2 e" by (rule pow2_pos)
  have y0: "0 \<le> y" using rm(1,2) pe by simp
  have e: "- 1074 \<le> e" unfolding e_def by (rule ulp_exp_ge)
  show ?thesis
  proof (cases "e \<le> - 7")
    case True
    then have "pow2 e \<le> pow2 (- 7)" by (rule pow2_mono)
    then have "\<bar>y - d\<bar> \<le> 1 / 256" using rm(5) by (simp add: pow2_m7)
    then have "\<bar>y - of_nat n / 100\<bar> < 1 / 200" by (simp add: d_def)
    then have "hundredths y = n" by (rule hundredths_near)
    then show ?thesis by (simp add: y_def d_def)
  next
    case False
    then have e6: "- 6 \<le> e" by simp
    then have "pow2 (- 6) \<le> pow2 e" by (rule pow2_mono)
    then have pe64: "1 / 64 \<le> pow2 e" by (simp add: pow2_m6)
    show ?thesis
    proof (cases "m = 2 ^ 53")
      case True
      have "0 \<le> e + 53" using e6 by simp
      then have "pow2 (e + 53) = of_int (2 ^ nat (e + 53))" by (rule pow2_nonneg_int)
      then have yi: "y = of_int (2 ^ nat (e + 53))"
        by (simp add: rm(1) True pow2_plus_53)
      have "of_nat (hundredths y) / 100 = y"
        unfolding yi by (rule hundredths_int) simp
      moreover have "round_binary64 y = y"
        using round_binary64_idem [of d] d0 by (simp add: y_def)
      ultimately show ?thesis by (simp add: y_def d_def)
    next
      case False
      then have m53: "m < 2 ^ 53" using rm(3) by simp
      define d' where "d' = (of_nat (hundredths y) / 100 :: rat)"
      have lo_int: "pow2 (e + 52) = of_int (2 ^ nat (e + 52))"
        using e6 by (intro pow2_nonneg_int) simp
      have hi_int: "pow2 (e + 53) = of_int (2 ^ nat (e + 53))"
        using e6 by (intro pow2_nonneg_int) simp
      have "(2::rat) ^ 52 \<le> of_int m" using m52
        by (metis of_int_le_iff of_int_numeral of_int_power)
      then have "2 ^ 52 * pow2 e \<le> of_int m * pow2 e"
        using pe by (simp only: mult_le_cancel_right_pos)
      then have "pow2 (e + 52) \<le> y" by (simp only: pow2_plus_52 rm(1))
      then have "of_int (2 ^ nat (e + 52)) \<le> y" by (simp only: lo_int)
      then have "of_int (2 ^ nat (e + 52)) \<le> d'"
        unfolding d'_def by (rule hundredths_ge) simp
      then have lo: "pow2 (e + 52) \<le> d'" by (simp only: lo_int)
      have "m \<le> 2 ^ 53 - 1" using m53 by simp
      then have "(of_int m :: rat) \<le> of_int (2 ^ 53 - 1)" by (simp only: of_int_le_iff)
      then have "(of_int m :: rat) \<le> 2 ^ 53 - 1" by simp
      then have "of_int m * pow2 e \<le> (2 ^ 53 - 1) * pow2 e"
        using pe by (simp only: mult_le_cancel_right_pos)
      also have "\<dots> = pow2 (e + 53) - pow2 e" by (simp add: pow2_plus_53 algebra_simps)
      also have "\<dots> \<le> pow2 (e + 53) - 1 / 64"
        using pe64 by simp
      finally have "y \<le> pow2 (e + 53) - 1 / 64" by (simp only: rm(1))
      then have "y \<le> of_int (2 ^ nat (e + 53)) - 1 / 64" by (simp only: hi_int)
      then have "d' < of_int (2 ^ nat (e + 53))"
        unfolding d'_def using y0 by (rule hundredths_less)
      then have "d' < pow2 (e + 53)" by (simp only: hi_int)
      moreover have "e + 52 + 1 = e + 53" by simp
      ultimately have hi: "d' < pow2 (e + 52 + 1)" by (simp only:)
      have "ilog2 d' = e + 52" using lo hi by (rule ilog2_eqI)
      moreover have "pow2 (- 1022) \<le> d'"
      proof -
        have "pow2 (- 1022) \<le> pow2 (e + 52)" using e6 by (intro pow2_mono) simp
        then show ?thesis using lo by simp
      qed
      ultimately have e': "ulp_exp d' = e" by (simp add: ulp_exp_normal)
      have dy: "\<bar>d' - y\<bar> \<le> 1 / 200"
        unfolding d'_def using y0 by (rule hundredths_error)
      have "\<bar>d' - y\<bar> / pow2 e \<le> (1 / 200) / pow2 e"
        by (rule divide_right_mono [OF dy less_imp_le [OF pe]])
      also have "\<dots> \<le> (1 / 200) / (1 / 64)"
        using pe64 by (intro divide_left_mono) simp_all
      also have "\<dots> < 1 / 2" by simp
      finally have "\<bar>d' - y\<bar> / pow2 e < 1 / 2" .
      moreover have "\<bar>d' - y\<bar> / pow2 e = \<bar>d' / pow2 e - of_int m\<bar>"
      proof -
        have "\<bar>d' - y\<bar> / pow2 e = \<bar>(d' - y) / pow2 e\<bar>" using pe by simp
        also have "(d' - y) / pow2 e = d' / pow2 e - of_int m"
          using pe by (simp add: rm(1) field_simps)
        finally show ?thesis .
      qed
      ultimately have "round_half_even (d' / pow2 e) = m" by (intro rhe_near) simp
      then have "round_binary64 d' = y" by (simp add: round_binary64_def e' rm(1))
      then show ?thesis by (simp add: d'_def y_def d_def)
    qed
  qed
qed

text \<open>Rounding a float64 to hundredths and back to binary64 never overflows.\<close>

lemma no_overflow_after_hundredths:
  assumes "is_binary64 q"
  shows "\<not> overflows (round_binary64 (of_nat (hundredths q) / 100))"
proof -
  have q0: "0 \<le> q" and qmax: "q < 2 ^ 1024"
    and qint: "of_int \<lfloor>q / pow2 (ulp_exp q)\<rfloor> = q / pow2 (ulp_exp q)"
    using assms by (simp_all add: is_binary64_def)
  define d where "d = (of_nat (hundredths q) / 100 :: rat)"
  show ?thesis
  proof (cases "2 ^ 53 \<le> q")
    case True
    have q: "0 < q" using True by (simp add: less_le_trans [of 0 "2 ^ 53"])
    have "pow2 53 \<le> q" using True by (simp add: pow2_def)
    then have "53 \<le> ilog2 q" by (rule ilog2_ge)
    then have e: "1 \<le> ulp_exp q" using q by (simp add: ulp_exp_def)
    define k where "k = \<lfloor>q / pow2 (ulp_exp q)\<rfloor>"
    have qk: "q / pow2 (ulp_exp q) = of_int k"
      using qint by (simp only: k_def)
    then have qke: "q = of_int k * pow2 (ulp_exp q)"
      using pow2_pos [of "ulp_exp q"] by (simp add: field_simps)
    define K where "K = k * 2 ^ nat (ulp_exp q)"
    have "pow2 (ulp_exp q) = of_int (2 ^ nat (ulp_exp q))"
      using e by (intro pow2_nonneg_int) simp
    then have "of_int k * pow2 (ulp_exp q) = (of_int K :: rat)"
      by (simp add: K_def)
    then have qi: "q = of_int K" using qke by simp
    have "(0::rat) \<le> of_int K" using q0 by (simp only: qi)
    then have "0 \<le> K" by (simp only: of_int_0_le_iff)
    then have "of_nat (hundredths (of_int K)) / 100 = (of_int K :: rat)"
      by (rule hundredths_int)
    then have "d = q" unfolding d_def by (simp only: qi)
    moreover have "round_binary64 q = q"
    proof -
      have "round_binary64 q = of_int (round_half_even (of_int k)) * pow2 (ulp_exp q)"
        by (simp only: round_binary64_def qk)
      then show ?thesis using qke by (simp only: rhe_of_int)
    qed
    ultimately show ?thesis using qmax by (simp add: overflows_def d_def)
  next
    case False
    then have "q \<le> of_int (2 ^ 53)" by simp
    then have "q * 100 \<le> of_int (2 ^ 53 * 100)" by simp
    then have "round_half_even (q * 100) \<le> 2 ^ 53 * 100" by (rule rhe_le)
    moreover have "0 \<le> round_half_even (q * 100)" using q0 by (simp add: rhe_nonneg)
    ultimately have "int (hundredths q) \<le> 2 ^ 53 * 100" by (simp add: hundredths_def)
    then have "(of_int (int (hundredths q)) :: rat) \<le> of_int (2 ^ 53 * 100)"
      by (simp only: of_int_le_iff)
    then have d53: "d \<le> 2 ^ 53" by (simp add: d_def)
    show ?thesis
    proof (cases "d = 0")
      case True
      then show ?thesis by (simp add: overflows_def d_def [symmetric])
    next
      case False
      have "0 \<le> d" by (simp add: d_def)
      then have d0: "0 < d" using False by simp
      have "d < pow2 (53 + 1)" using d53 by (simp add: pow2_def)
      then have "ilog2 d \<le> 53" using d0 by (intro ilog2_le) simp_all
      then have e: "ulp_exp d \<le> 1" using d0 by (simp add: ulp_exp_def)
      note rm = round_binary64_mantissa [OF d0]
      have "round_binary64 d \<le> 2 ^ 53 * pow2 (ulp_exp d)"
      proof -
        have "(of_int (round_half_even (d / pow2 (ulp_exp d))) :: rat) \<le> of_int (2 ^ 53)"
          using rm(3) by (simp only: of_int_le_iff)
        then show ?thesis using pow2_pos [of "ulp_exp d"] by (simp add: rm(1))
      qed
      also have "\<dots> \<le> 2 ^ 53 * pow2 1"
        using pow2_mono [OF e] by simp
      also have "\<dots> < 2 ^ 1024" by (simp add: pow2_def)
      finally show ?thesis by (simp add: overflows_def d_def)
    qed
  qed
qed

section \<open>Reading what was printed\<close>

lemma of_char_digit_char: "d < 10 \<Longrightarrow> (of_char (digit_char d) :: nat) = 48 + d"
  by (simp add: digit_char_def)

lemma is_digit_digit_char [simp]: "d < 10 \<Longrightarrow> is_digit (digit_char d)"
  by (simp add: is_digit_def of_char_digit_char)

lemma digit_val_digit_char [simp]: "d < 10 \<Longrightarrow> digit_val (digit_char d) = d"
  by (simp add: digit_val_def of_char_digit_char)

lemma not_is_digit [simp]:
  "\<not> is_digit CHR ''-''" "\<not> is_digit CHR ''+''" "\<not> is_digit CHR ''.''"
  by (simp_all add: is_digit_def)

lemma digits_all: "\<forall>c \<in> set (digits n). is_digit c"
proof (induction n rule: digits.induct)
  case (1 n)
  show ?case
  proof (cases "n < 10")
    case True
    then show ?thesis by (simp add: digits.simps [of n])
  next
    case False
    then show ?thesis using "1.IH" by (simp add: digits.simps [of n])
  qed
qed

lemma digits_nonempty: "digits n \<noteq> []"
  by (simp add: digits.simps [of n])

lemma nat_of_digits_snoc:
  "nat_of_digits (ds @ [c]) = 10 * nat_of_digits ds + digit_val c"
  by (simp add: nat_of_digits_def)

lemma nat_of_digits_digits: "nat_of_digits (digits n) = n"
proof (induction n rule: digits.induct)
  case (1 n)
  show ?case
  proof (cases "n < 10")
    case True
    then show ?thesis by (simp add: digits.simps [of n] nat_of_digits_def)
  next
    case False
    then have "nat_of_digits (digits n) = 10 * (n div 10) + n mod 10"
      using "1.IH" by (simp add: digits.simps [of n] nat_of_digits_snoc)
    then show ?thesis by simp
  qed
qed

text \<open>Reading digits, a point and digits, with nothing after.\<close>

lemma readFloat_unsigned:
  assumes ip: "\<forall>c \<in> set ip. is_digit c" and fp: "\<forall>c \<in> set fp. is_digit c"
    and ne: "ip \<noteq> []"
  shows "readFloat (ip @ CHR ''.'' # fp) =
           Some (False, of_nat (nat_of_digits (ip @ fp)) / 10 ^ length fp)"
proof -
  let ?s = "ip @ CHR ''.'' # fp"
  obtain c cs where ipc: "ip = c # cs" using ne by (cases ip) auto
  have c: "is_digit c" using ip by (simp add: ipc)
  have hd: "hd ?s = c" by (simp add: ipc)
  have csign: "c \<noteq> CHR ''-''" "c \<noteq> CHR ''+''" using c by auto
  have tw1: "takeWhile is_digit ?s = ip"
    using ip by (simp add: takeWhile_append2)
  have dw1: "dropWhile is_digit ?s = CHR ''.'' # fp"
    using ip by (simp add: dropWhile_append2)
  have tw2: "takeWhile is_digit fp = fp" using fp by (simp add: takeWhile_eq_all_conv)
  have dw2: "dropWhile is_digit fp = []" using fp by (simp add: dropWhile_eq_Nil_conv)
  have body: "(if ?s \<noteq> [] \<and> (hd ?s = CHR ''+'' \<or> hd ?s = CHR ''-'') then tl ?s else ?s) = ?s"
    using csign by (simp only: hd) simp
  have neg: "(?s \<noteq> [] \<and> hd ?s = CHR ''-'') = False"
    using csign by (simp only: hd) simp
  show ?thesis
    unfolding readFloat_def Let_def body neg tw1 dw1
    using ne by (simp add: tw2 dw2)
qed

lemma readFloat_minus:
  assumes ip: "\<forall>c \<in> set ip. is_digit c" and fp: "\<forall>c \<in> set fp. is_digit c"
    and ne: "ip \<noteq> []"
  shows "readFloat (CHR ''-'' # ip @ CHR ''.'' # fp) =
           Some (True, of_nat (nat_of_digits (ip @ fp)) / 10 ^ length fp)"
proof -
  let ?b = "ip @ CHR ''.'' # fp"
  let ?s = "CHR ''-'' # ?b"
  have tw1: "takeWhile is_digit ?b = ip"
    using ip by (simp add: takeWhile_append2)
  have dw1: "dropWhile is_digit ?b = CHR ''.'' # fp"
    using ip by (simp add: dropWhile_append2)
  have tw2: "takeWhile is_digit fp = fp" using fp by (simp add: takeWhile_eq_all_conv)
  have dw2: "dropWhile is_digit fp = []" using fp by (simp add: dropWhile_eq_Nil_conv)
  have body: "(if ?s \<noteq> [] \<and> (hd ?s = CHR ''+'' \<or> hd ?s = CHR ''-'') then tl ?s else ?s) = ?b"
    by simp
  have neg: "(?s \<noteq> [] \<and> hd ?s = CHR ''-'') = True"
    by simp
  show ?thesis
    unfolding readFloat_def Let_def body neg tw1 dw1
    using ne by (simp add: tw2 dw2)
qed

lemma split_hundredths: "10 * (10 * (n div 100) + n mod 100 div 10) + n mod 10 = (n::nat)"
proof -
  define a where "a = n div 100"
  define r where "r = n mod 100"
  define b where "b = r div 10"
  define c where "c = n mod 10"
  have "r mod 10 = c" by (simp add: r_def c_def mod_mod_cancel)
  then have r: "r = 10 * b + c"
    using div_mult_mod_eq [of r 10] by (simp add: b_def)
  have n: "n = 100 * a + r" by (simp add: a_def r_def)
  have "10 * (10 * a + b) + c = n" by (simp add: n r)
  then show ?thesis by (simp only: a_def b_def r_def c_def)
qed

lemma nat_of_hundredths_digits:
  "nat_of_digits (digits (n div 100) @ [digit_char (n mod 100 div 10), digit_char (n mod 10)]) = n"
proof -
  have d1: "n mod 100 div 10 < 10" and d2: "n mod 10 < 10" by simp_all
  have "digits (n div 100) @ [digit_char (n mod 100 div 10), digit_char (n mod 10)]
      = (digits (n div 100) @ [digit_char (n mod 100 div 10)]) @ [digit_char (n mod 10)]"
    by simp
  then have "nat_of_digits (digits (n div 100) @ [digit_char (n mod 100 div 10), digit_char (n mod 10)])
      = 10 * (10 * (n div 100) + n mod 100 div 10) + n mod 10"
    using d1 d2 by (simp only: nat_of_digits_snoc nat_of_digits_digits digit_val_digit_char)
  then show ?thesis by (simp only: split_hundredths)
qed

lemma Sprintf_2f_Fin_text:
  "Sprintf_2f (F64_Fin s q) =
     (if s then ''-'' else '''') @ digits (hundredths q div 100) @ CHR ''.'' #
     [digit_char (hundredths q mod 100 div 10), digit_char (hundredths q mod 10)]"
  by (simp add: Let_def)

lemma readFloat_Sprintf_2f:
  "readFloat (Sprintf_2f (F64_Fin s q)) = Some (s, of_nat (hundredths q) / 100)"
proof -
  let ?n = "hundredths q"
  let ?ip = "digits (?n div 100)"
  let ?fp = "[digit_char (?n mod 100 div 10), digit_char (?n mod 10)]"
  have ip: "\<forall>c \<in> set ?ip. is_digit c" by (rule digits_all)
  have fp: "\<forall>c \<in> set ?fp. is_digit c" by simp
  have ne: "?ip \<noteq> []" by (rule digits_nonempty)
  have v: "of_nat (nat_of_digits (?ip @ ?fp)) / 10 ^ length ?fp = (of_nat ?n / 100 :: rat)"
    by (simp only: nat_of_hundredths_digits) simp
  show ?thesis
  proof (cases s)
    case True
    then have "Sprintf_2f (F64_Fin s q) = CHR ''-'' # ?ip @ CHR ''.'' # ?fp"
      by (simp add: Let_def)
    then show ?thesis
      using readFloat_minus [OF ip fp ne] True by (simp only: v)
  next
    case False
    then have "Sprintf_2f (F64_Fin s q) = ?ip @ CHR ''.'' # ?fp"
      by (simp add: Let_def)
    then show ?thesis
      using readFloat_unsigned [OF ip fp ne] False by (simp only: v)
  qed
qed

lemma lower_point [simp]: "lower CHR ''.'' = CHR ''.''"
  by (simp add: lower_def)

lemma special_None:
  assumes "CHR ''.'' \<in> set s"
  shows "special s = None"
proof -
  have "CHR ''.'' \<in> lower ` set s"
    using assms lower_point by (metis image_eqI)
  then have p: "CHR ''.'' \<in> set (map lower s)" by simp
  have "map lower s \<noteq> l" if "CHR ''.'' \<notin> set l" for l
    using p that by auto
  then have "map lower s \<noteq> ''nan''" "map lower s \<noteq> ''inf''" "map lower s \<noteq> ''infinity''"
    "map lower s \<noteq> ''+inf''" "map lower s \<noteq> ''+infinity''"
    "map lower s \<noteq> ''-inf''" "map lower s \<noteq> ''-infinity''"
    by simp_all
  then show ?thesis unfolding special_def Let_def by (simp only: if_False simp_thms)
qed

lemma ParseFloat_Sprintf_2f_Fin:
  "ParseFloat (Sprintf_2f (F64_Fin s q)) =
     (if overflows (round_binary64 (of_nat (hundredths q) / 100))
      then (F64_Inf s, Some ErrRange)
      else (F64_Fin s (round_binary64 (of_nat (hundredths q) / 100)), None))"
proof -
  have "CHR ''.'' \<in> set (Sprintf_2f (F64_Fin s q))"
    by (simp only: Sprintf_2f_Fin_text) simp
  then have "special (Sprintf_2f (F64_Fin s q)) = None"
    by (rule special_None)
  then show ?thesis
    unfolding ParseFloat_def by (simp only: readFloat_Sprintf_2f) simp
qed

lemma ParseFloat_Sprintf_2f_NaN: "ParseFloat (Sprintf_2f F64_NaN) = (F64_NaN, None)"
  by (simp add: ParseFloat_def special_def lower_def char_of_eq_iff take_bit_eq_mod)

lemma ParseFloat_Sprintf_2f_Inf: "ParseFloat (Sprintf_2f (F64_Inf s)) = (F64_Inf s, None)"
  by (simp add: ParseFloat_def special_def lower_def char_of_eq_iff take_bit_eq_mod)

lemma is_float64_float64_of:
  assumes "0 \<le> q"
  shows "is_float64 (float64_of s q)"
  using assms by (simp add: float64_of_def is_binary64_round)

lemma is_float64_div_positive:
  assumes "is_float64 x" and "0 < c"
  shows "is_float64 (float64_div x (F64_Fin False c))"
proof (cases x)
  case (F64_Fin s a)
  then have "0 \<le> a" using assms(1) by (simp add: is_binary64_def)
  then have "0 \<le> a / c" using assms(2) by simp
  then show ?thesis using assms(2) F64_Fin by (simp add: is_float64_float64_of)
qed simp_all

lemma ParseFloat_Sprintf_2f_ok:
  assumes "is_float64 x"
  shows "snd (ParseFloat (Sprintf_2f x)) = None"
proof (cases x)
  case F64_NaN
  then show ?thesis by (simp only: ParseFloat_Sprintf_2f_NaN snd_conv)
next
  case (F64_Inf s)
  then show ?thesis by (simp only: ParseFloat_Sprintf_2f_Inf snd_conv)
next
  case (F64_Fin s q)
  then have "is_binary64 q" using assms by simp
  then have "\<not> overflows (round_binary64 (of_nat (hundredths q) / 100))"
    by (rule no_overflow_after_hundredths)
  then show ?thesis unfolding F64_Fin by (simp only: ParseFloat_Sprintf_2f_Fin if_False snd_conv)
qed

lemma round2_Fin:
  "round2 (F64_Fin s q) =
     (if overflows (round_binary64 (of_nat (hundredths q) / 100)) then F64_Inf s
      else F64_Fin s (round_binary64 (of_nat (hundredths q) / 100)))"
  by (simp only: round2_def ParseFloat_Sprintf_2f_Fin) simp

lemma round2_NaN: "round2 F64_NaN = F64_NaN"
  by (simp only: round2_def ParseFloat_Sprintf_2f_NaN fst_conv)

lemma round2_Inf: "round2 (F64_Inf s) = F64_Inf s"
  by (simp only: round2_def ParseFloat_Sprintf_2f_Inf fst_conv)

lemma round2_round2: "round2 (round2 x) = round2 x"
proof (cases x)
  case F64_NaN
  then show ?thesis by (simp only: round2_NaN)
next
  case (F64_Inf s)
  then show ?thesis by (simp only: round2_Inf)
next
  case (F64_Fin s q)
  let ?y = "round_binary64 (of_nat (hundredths q) / 100)"
  show ?thesis
  proof (cases "overflows ?y")
    case True
    then have "round2 x = F64_Inf s" by (simp add: F64_Fin round2_Fin)
    then show ?thesis by (simp only: round2_Inf)
  next
    case False
    then have r: "round2 x = F64_Fin s ?y" by (simp add: F64_Fin round2_Fin)
    have "round_binary64 (of_nat (hundredths ?y) / 100) = ?y"
      by (rule round_trip_hundredths)
    then have "round2 (F64_Fin s ?y) = F64_Fin s ?y"
      using False by (simp add: round2_Fin)
    then show ?thesis by (simp only: r)
  qed
qed

lemma is_float64_round2: "is_float64 (round2 x)"
proof (cases x)
  case (F64_Fin s q)
  have "0 \<le> (of_nat (hundredths q) / 100 :: rat)" by simp
  then show ?thesis unfolding F64_Fin round2_Fin by (simp add: is_binary64_round)
qed (simp_all add: round2_NaN round2_Inf)

section \<open>Worked values\<close>

lemma rhe_numeral [simp]: "round_half_even (numeral n) = numeral n"
  using rhe_of_int [of "numeral n"] by simp

lemma round_binary64_2048: "round_binary64 2048 = 2048"
proof -
  have eq: "of_int (2 ^ 52) * pow2 (- 41) = (2048::rat)" by (simp add: pow2_def)
  have "round_binary64 (of_int (2 ^ 52) * pow2 (- 41)) = of_int (2 ^ 52) * pow2 (- 41)"
    by (rule round_binary64_canonical) simp_all
  then show ?thesis by (simp only: eq)
qed

lemma div_2147483648_MiB:
  "float64_div (F64_Fin False 2147483648) MiB = F64_Fin False 2048"
  by (simp add: MiB_def float64_of_def round_binary64_2048 overflows_def)

lemma hundredths_2048: "hundredths 2048 = 204800"
  by (simp add: hundredths_def)

lemma round2_2048: "round2 (F64_Fin False 2048) = F64_Fin False 2048"
  by (simp add: round2_Fin hundredths_2048 round_binary64_2048 overflows_def)

lemma Sprintf_2f_2048: "Sprintf_2f (F64_Fin False 2048) = ''2048.00''"
  by (simp add: hundredths_2048 digits.simps digit_char_def char_of_eq_iff take_bit_eq_mod)

lemma round_binary64_2: "round_binary64 2 = 2"
proof -
  have eq: "of_int (2 ^ 52) * pow2 (- 51) = (2::rat)" by (simp add: pow2_def)
  have "round_binary64 (of_int (2 ^ 52) * pow2 (- 51)) = of_int (2 ^ 52) * pow2 (- 51)"
    by (rule round_binary64_canonical) simp_all
  then show ?thesis by (simp only: eq)
qed

lemma div_2097152_MiB:
  "float64_div (F64_Fin False 2097152) MiB = F64_Fin False 2"
  by (simp add: MiB_def float64_of_def round_binary64_2 overflows_def)

lemma round2_2: "round2 (F64_Fin False 2) = F64_Fin False 2"
proof -
  have "hundredths 2 = 200" by (simp add: hundredths_def)
  then show ?thesis by (simp add: round2_Fin round_binary64_2 overflows_def)
qed

lemma round_binary64_normal:
  assumes "pow2 k \<le> q" and "q < pow2 (k + 1)" and "- 1022 \<le> k"
  shows "round_binary64 q = of_int (round_half_even (q / pow2 (k - 52))) * pow2 (k - 52)"
proof -
  have i: "ilog2 q = k" using assms(1,2) by (rule ilog2_eqI)
  have "0 < q" using assms(1) pow2_pos [of k] by simp
  then have "ulp_exp q = k - 52" using assms(3) by (simp add: ulp_exp_def i)
  then show ?thesis by (simp add: round_binary64_def)
qed

lemma round_binary64_118: "round_binary64 (59 / 50) = 5314247560297185 / 4503599627370496"
proof -
  have "round_binary64 (59 / 50)
      = of_int (round_half_even (59 / 50 / pow2 (0 - 52))) * pow2 (0 - 52)"
    by (rule round_binary64_normal) (simp_all add: pow2_def)
  moreover have "round_half_even (59 / 50 / pow2 (0 - 52)) = 5314247560297185"
    by (rule rhe_near) (simp add: pow2_def)
  ultimately show ?thesis by (simp add: pow2_def)
qed

lemma round_binary64_1234567: "round_binary64 (1234567 / 1048576) = 1234567 / 1048576"
proof -
  have eq: "of_int 5302424889720832 * pow2 (- 52) = (1234567 / 1048576 :: rat)"
    by (simp add: pow2_def)
  have "round_binary64 (of_int 5302424889720832 * pow2 (- 52))
      = of_int 5302424889720832 * pow2 (- 52)"
    by (rule round_binary64_canonical) simp_all
  then show ?thesis by (simp only: eq)
qed

lemma div_1234567_MiB:
  "float64_div (F64_Fin False 1234567) MiB = F64_Fin False (1234567 / 1048576)"
  by (simp add: MiB_def float64_of_def round_binary64_1234567 overflows_def)

lemma hundredths_1234567: "hundredths (1234567 / 1048576) = 118"
proof -
  have "round_half_even (1234567 / 1048576 * 100) = 118"
    by (rule rhe_near) simp
  then show ?thesis by (simp add: hundredths_def)
qed

lemma round2_1234567:
  "round2 (F64_Fin False (1234567 / 1048576))
     = F64_Fin False (5314247560297185 / 4503599627370496)"
  by (simp add: round2_Fin hundredths_1234567 round_binary64_118 overflows_def)

lemma Sprintf_2f_1234567: "Sprintf_2f (F64_Fin False (1234567 / 1048576)) = ''1.18''"
  by (simp add: hundredths_1234567 digits.simps digit_char_def char_of_eq_iff take_bit_eq_mod)

section \<open>The unit conversion\<close>

declare Sprintf_2f.simps [simp del]

lemma is_binary64_1234567: "is_binary64 1234567"
proof -
  have eq: "of_int 5302424889720832 * pow2 (- 32) = (1234567 :: rat)"
    by (simp add: pow2_def)
  have "is_binary64 (of_int 5302424889720832 * pow2 (- 32))"
    by (rule is_binary64_canonical) (simp_all add: pow2_def)
  then show ?thesis by (simp only: eq)
qed

lemma is_binary64_max: "is_binary64 (2 ^ 1024 - 2 ^ 971)"
proof -
  have eq: "of_int (2 ^ 53 - 1) * pow2 971 = (2 ^ 1024 - 2 ^ 971 :: rat)"
    by (simp add: pow2_def)
  have "is_binary64 (of_int (2 ^ 53 - 1) * pow2 971)"
    by (rule is_binary64_canonical) (simp_all add: pow2_def)
  then show ?thesis by (simp only: eq)
qed

text \<open>
  C1: in the record that \<open>getVMs\<close> builds from a raw record, each memory field is the
  raw field divided by 1024 * 1024 and each disk field the raw field divided by
  1024 * 1024 * 1024, in float64, then printed with two decimals and parsed back; and
  when the raw fields are float64 values, each of the four parses succeeds, so the number
  kept is the number that was printed.
\<close>

theorem convert_divides_then_rounds_textually:
  "Mem (convert u res) =
     fst (ParseFloat (Sprintf_2f (float64_div (Mem res) (F64_Fin False (1024 * 1024))))) \<and>
   MaxMem (convert u res) =
     fst (ParseFloat (Sprintf_2f (float64_div (MaxMem res) (F64_Fin False (1024 * 1024))))) \<and>
   Disk (convert u res) =
     fst (ParseFloat
       (Sprintf_2f (float64_div (Disk res) (F64_Fin False (1024 * 1024 * 1024))))) \<and>
   MaxDisk (convert u res) =
     fst (ParseFloat
       (Sprintf_2f (float64_div (MaxDisk res) (F64_Fin False (1024 * 1024 * 1024))))) \<and>
   (is_float64 (Mem res) \<and> is_float64 (MaxMem res) \<and>
    is_float64 (Disk res) \<and> is_float64 (MaxDisk res) \<longrightarrow>
      snd (ParseFloat (Sprintf_2f (float64_div (Mem res) (F64_Fin False (1024 * 1024)))))
        = None \<and>
      snd (ParseFloat (Sprintf_2f (float64_div (MaxMem res) (F64_Fin False (1024 * 1024)))))
        = None \<and>
      snd (ParseFloat
        (Sprintf_2f (float64_div (Disk res) (F64_Fin False (1024 * 1024 * 1024)))))
        = None \<and>
      snd (ParseFloat
        (Sprintf_2f (float64_div (MaxDisk res) (F64_Fin False (1024 * 1024 * 1024)))))
        = None)"
proof -
  have ok: "snd (ParseFloat (Sprintf_2f (float64_div x (F64_Fin False c)))) = None"
    if "is_float64 x" and "0 < c" for x c
    using that by (intro ParseFloat_Sprintf_2f_ok is_float64_div_positive)
  have fields:
    "Mem (convert u res) = round2 (float64_div (Mem res) MiB)"
    "MaxMem (convert u res) = round2 (float64_div (MaxMem res) MiB)"
    "Disk (convert u res) = round2 (float64_div (Disk res) GiB)"
    "MaxDisk (convert u res) = round2 (float64_div (MaxDisk res) GiB)"
    by (simp_all add: convert_def round_fields_def new_vm_def)
  show ?thesis
    unfolding fields round2_def MiB_def GiB_def
    by (intro conjI impI refl ok) simp_all
qed

theorem convert_divides_then_rounds_textually_witness:
  "is_float64 (F64_Fin False 1234567) \<and>
   float64_div (F64_Fin False 1234567) (F64_Fin False (1024 * 1024))
     = F64_Fin False (1234567 / 1048576) \<and>
   Sprintf_2f (F64_Fin False (1234567 / 1048576)) = ''1.18'' \<and>
   ParseFloat ''1.18'' = (F64_Fin False (5314247560297185 / 4503599627370496), None) \<and>
   Mem (convert ''alice'' (sample_vm ''web'' ''qemu'' (F64_Fin False 1234567)))
     = F64_Fin False (5314247560297185 / 4503599627370496)"
proof -
  let ?res = "sample_vm ''web'' ''qemu'' (F64_Fin False 1234567)"
  have v: "is_float64 (F64_Fin False 1234567)"
    by (simp add: is_binary64_1234567)
  have d: "float64_div (F64_Fin False 1234567) (F64_Fin False (1024 * 1024))
      = F64_Fin False (1234567 / 1048576)"
    using div_1234567_MiB by (simp add: MiB_def)
  have f: "Mem ?res = F64_Fin False 1234567" "MaxMem ?res = F64_Fin False 1234567"
    "Disk ?res = F64_Fin False 1234567" "MaxDisk ?res = F64_Fin False 1234567"
    by (simp_all add: sample_vm_def)
  note t = convert_divides_then_rounds_textually [of "''alice''" ?res, unfolded f d]
  have s: "Sprintf_2f (F64_Fin False (1234567 / 1048576)) = ''1.18''"
    by (rule Sprintf_2f_1234567)
  have r: "fst (ParseFloat ''1.18'') = F64_Fin False (5314247560297185 / 4503599627370496)"
    using round2_1234567 by (simp only: round2_def s)
  have e: "snd (ParseFloat ''1.18'') = None"
    using t v by (simp add: s)
  have p: "ParseFloat ''1.18'' = (F64_Fin False (5314247560297185 / 4503599627370496), None)"
    using r e by (simp add: prod_eq_iff)
  have m: "Mem (convert ''alice'' ?res) = F64_Fin False (5314247560297185 / 4503599627370496)"
    using t by (simp add: s r)
  show ?thesis using v d s p m by simp
qed

lemma Mem_convert: "Mem (convert u res) = round2 (float64_div (Mem res) MiB)"
  by (simp add: convert_def round_fields_def new_vm_def)

text \<open>
  C6, amended: for a raw record whose memory value is 2147483648, the quotient by
  1024 * 1024 is 2048, it prints as \<open>2048.00\<close>, and the memory value of the converted
  record is 2048. The value 2 is what the raw value 2097152, which is 2 * 1024 * 1024,
  converts to.
\<close>

theorem mem_2147483648_converts_to_2048:
  "Mem (new_vm u (res \<lparr> Mem := F64_Fin False 2147483648 \<rparr>)) = F64_Fin False 2048 \<and>
   Sprintf_2f (Mem (new_vm u (res \<lparr> Mem := F64_Fin False 2147483648 \<rparr>))) = ''2048.00'' \<and>
   Mem (convert u (res \<lparr> Mem := F64_Fin False 2147483648 \<rparr>)) = F64_Fin False 2048 \<and>
   Mem (convert u (res \<lparr> Mem := F64_Fin False 2097152 \<rparr>)) = F64_Fin False 2"
proof -
  have t: "Mem (convert u (res \<lparr> Mem := F64_Fin False 2097152 \<rparr>)) = F64_Fin False 2"
    by (simp add: Mem_convert div_2097152_MiB round2_2)
  have n: "Mem (new_vm u (res \<lparr> Mem := F64_Fin False 2147483648 \<rparr>)) = F64_Fin False 2048"
    by (simp add: new_vm_def div_2147483648_MiB)
  have c: "Mem (convert u (res \<lparr> Mem := F64_Fin False 2147483648 \<rparr>)) = F64_Fin False 2048"
    by (simp add: Mem_convert div_2147483648_MiB round2_2048)
  show ?thesis by (simp only: n c t Sprintf_2f_2048)
qed

text \<open>
  The example of the specification gives 2.00 for this record; the converted value is not
  2.
\<close>

theorem mem_2147483648_is_not_2:
  "Mem (convert ''alice'' (sample_vm ''web'' ''qemu'' (F64_Fin False 2147483648)))
     \<noteq> F64_Fin False 2"
proof -
  have "Mem (convert ''alice'' (sample_vm ''web'' ''qemu'' (F64_Fin False 2147483648)))
      = F64_Fin False 2048"
    by (simp add: Mem_convert sample_vm_def div_2147483648_MiB round2_2048)
  then show ?thesis by simp
qed

text \<open>
  C7: a value that the rounding step produced is returned unchanged when it is printed
  with two decimals and parsed again; so rounding the four fields of a record twice is
  rounding them once. (A NaN stays a NaN: the equality is that of the values as data,
  not Go's \<open>==\<close>, under which a NaN differs from itself.)
\<close>

theorem rounding_is_idempotent:
  "fst (ParseFloat (Sprintf_2f (round2 x))) = round2 x \<and>
   round_fields (round_fields vm) = round_fields vm"
proof
  show "fst (ParseFloat (Sprintf_2f (round2 x))) = round2 x"
    using round2_round2 [of x] by (simp only: round2_def)
  show "round_fields (round_fields vm) = round_fields vm"
    by (simp add: round_fields_def round2_round2)
qed

text \<open>
  C10: for every float64, NaN and the infinities included, parsing what
  \<open>Sprintf("%.2f")\<close> printed returns no error: the value that the rounding step keeps is
  the parsed number, never the zero of a failed parse.
\<close>

theorem parse_of_printed_never_fails:
  assumes "is_float64 x"
  shows "snd (ParseFloat (Sprintf_2f x)) = None"
  using assms by (rule ParseFloat_Sprintf_2f_ok)

theorem parse_of_printed_never_fails_witness:
  "is_float64 (F64_Fin False (2 ^ 1024 - 2 ^ 971)) \<and>
   snd (ParseFloat (Sprintf_2f (F64_Fin False (2 ^ 1024 - 2 ^ 971)))) = None \<and>
   is_float64 F64_NaN \<and> Sprintf_2f F64_NaN = ''NaN'' \<and> snd (ParseFloat ''NaN'') = None \<and>
   is_float64 (F64_Inf True) \<and> Sprintf_2f (F64_Inf True) = ''-Inf'' \<and>
   snd (ParseFloat ''-Inf'') = None \<and>
   is_float64 (F64_Fin True 0) \<and> Sprintf_2f (F64_Fin True 0) = ''-0.00'' \<and>
   snd (ParseFloat ''-0.00'') = None"
proof -
  have m: "is_float64 (F64_Fin False (2 ^ 1024 - 2 ^ 971))"
    using is_binary64_max by simp
  have z: "is_float64 (F64_Fin True 0)"
    by (simp add: is_binary64_def)
  have zs: "Sprintf_2f (F64_Fin True 0) = ''-0.00''"
    by (simp add: Sprintf_2f.simps hundredths_def digits.simps digit_char_def char_of_eq_iff
        take_bit_eq_mod)
  have ns: "Sprintf_2f F64_NaN = ''NaN''" and infs: "Sprintf_2f (F64_Inf True) = ''-Inf''"
    by (simp_all add: Sprintf_2f.simps)
  note t = parse_of_printed_never_fails
  show ?thesis
    using t [OF m] t [of F64_NaN] t [of "F64_Inf True"] t [OF z] m z
    by (simp only: zs ns infs) simp
qed

section \<open>The collector\<close>

lemma range_loop_append:
  "range_loop userID rs (Slice xs) =
     Slice (xs @ map (convert userID) (filter wanted rs))"
proof (induction rs arbitrary: xs)
  case Nil
  show ?case by simp
next
  case (Cons r rs)
  show ?case by (simp add: Cons.IH Let_def)
qed


lemma getVMs_success:
  assumes "exec_Output w pvesh_command = Inr out"
    and "json_Unmarshal_VMInfos w out = Inr resources"
  shows "getVMs w userID =
           Inr \<lparr> UserId = userID,
                 Vms = Slice (map (convert userID) (filter wanted (elems resources))) \<rparr>"
  using assms by (simp add: getVMs_def range_loop_append)

lemma getVMs_Inr_cases:
  assumes "getVMs w userID = Inr r"
  obtains out resources where
    "exec_Output w pvesh_command = Inr out"
    "json_Unmarshal_VMInfos w out = Inr resources"
  using assms by (auto simp: getVMs_def split: sum.splits)

lemma UserID_convert: "UserID (convert userID res) = userID"
  by (simp add: convert_def round_fields_def new_vm_def)

lemma Type_convert: "Type (convert userID res) = Type res"
  by (simp add: convert_def round_fields_def new_vm_def)

text \<open>
  C2: when the inventory command succeeds and its output parses, the batch is the
  conversion of exactly the raw records of type qemu or lxc, one converted record for
  each, in the order of the command's output.
\<close>

theorem getVMs_keeps_guests_in_order:
  assumes "exec_Output w pvesh_command = Inr out"
    and "json_Unmarshal_VMInfos w out = Inr resources"
  shows "\<exists>r. getVMs w userID = Inr r \<and>
           elems (Vms r) =
             map (convert userID)
               (filter (\<lambda>res. Type res = ''qemu'' \<or> Type res = ''lxc'') (elems resources)) \<and>
           map Type (elems (Vms r)) =
             filter (\<lambda>t. t = ''qemu'' \<or> t = ''lxc'') (map Type (elems resources))"
proof -
  have w: "wanted = (\<lambda>res. Type res = ''qemu'' \<or> Type res = ''lxc'')"
    by (rule ext) (simp add: wanted_def)
  have "map Type (map (convert userID) (filter wanted (elems resources))) =
          map Type (filter wanted (elems resources))"
    by (simp add: Type_convert comp_def)
  also have "\<dots> = filter (\<lambda>t. t = ''qemu'' \<or> t = ''lxc'') (map Type (elems resources))"
    unfolding w by (simp add: filter_map comp_def)
  finally show ?thesis
    using getVMs_success [OF assms, of userID] by (simp add: w)
qed

theorem getVMs_keeps_guests_in_order_witness:
  "exec_Output world_ok pvesh_command = Inr ''[]'' \<and>
   json_Unmarshal_VMInfos world_ok ''[]'' = Inr (Slice sample_resources) \<and>
   (\<exists>r. getVMs world_ok ''alice'' = Inr r \<and>
        map Name (elems (Vms r)) = [''web'', ''db''] \<and>
        map Type (elems (Vms r)) = [''qemu'', ''lxc''])"
proof -
  have 1: "exec_Output world_ok pvesh_command = Inr ''[]''"
    by (simp add: world_ok_def)
  have 2: "json_Unmarshal_VMInfos world_ok ''[]'' = Inr (Slice sample_resources)"
    by (simp add: world_ok_def)
  have n: "Name (convert u res) = Name res" for u res
    by (simp add: convert_def round_fields_def new_vm_def)
  from getVMs_keeps_guests_in_order [OF 1 2, of "''alice''"]
  obtain r where r: "getVMs world_ok ''alice'' = Inr r"
    "elems (Vms r) = map (convert ''alice'')
       (filter (\<lambda>res. Type res = ''qemu'' \<or> Type res = ''lxc'') (elems (Slice sample_resources)))"
    "map Type (elems (Vms r)) =
       filter (\<lambda>t. t = ''qemu'' \<or> t = ''lxc'') (map Type (elems (Slice sample_resources)))"
    by blast
  have "map Name (elems (Vms r)) = [''web'', ''db'']"
    unfolding r(2) by (simp add: sample_resources_def sample_vm_def n)
  moreover have "map Type (elems (Vms r)) = [''qemu'', ''lxc'']"
    unfolding r(3) by (simp add: sample_resources_def sample_vm_def)
  ultimately show ?thesis using 1 2 r(1) by auto
qed

section \<open>The process under any interleaving\<close>

text \<open>
  The invariant holds at the start and is kept by every choice, so it holds after any
  sequence of choices.
\<close>

lemma closure_step_to_come:
  assumes "closure_step ep uid w pc = (evs, g, out)"
  shows "g = uid \<and> out \<noteq> Exit \<and>
         to_come uid ep w pc =
           evs @ (case out of Next pc' \<Rightarrow> to_come uid ep w pc' | Return \<Rightarrow> [] | Exit \<Rightarrow> [])"
proof (cases pc)
  case AtGetVMs
  then show ?thesis using assms by (auto simp: tick_def Let_def split: sum.splits)
next
  case (AtCheckErr x)
  then show ?thesis using assms by (cases x) auto
next
  case (AtSend r)
  then show ?thesis using assms by (auto split: sum.splits)
next
  case (AtCheckSend x)
  then show ?thesis using assms by (cases x) auto
qed

lemma events_of_trace_append:
  assumes "p_trace c' = p_trace c @ map (Pair j) evs"
  shows "events_of i c' = events_of i c @ (if i = j then evs else [])"
  by (simp add: events_of_def assms filter_map comp_def)

lemma events_of_init [simp]: "events_of i (init_process uid ticks) = []"
  by (simp add: events_of_def init_process_def)

lemma cron_inv_init: "cron_inv uid ep ticks (init_process uid ticks)"
  by (simp add: cron_inv_def firing_ok_def init_process_def events_of_def)

lemma cron_inv_fire:
  assumes inv: "cron_inv uid ep ticks c"
  shows "cron_inv uid ep ticks (exec_choice AtGetVMs (closure_step ep) c Fire)"
proof (cases "p_pending c")
  case Nil
  then show ?thesis using inv by (simp add: exec_choice_def)
next
  case (Cons w ws)
  let ?n = "p_started c"
  define c' where "c' = exec_choice AtGetVMs (closure_step ep) c Fire"
  have ne: "\<not> p_exited c" and u: "p_userID c = uid" using inv by (simp_all add: cron_inv_def)
  have ex: "c' = c \<lparr> p_pending := ws, p_started := Suc ?n,
      p_goroutines := (p_goroutines c)(?n \<mapsto> (w, AtGetVMs)) \<rparr>"
    using ne Cons by (simp add: c'_def exec_choice_def)
  have f: "p_userID c' = uid" "\<not> p_exited c'" "p_started c' = Suc ?n" "p_pending c' = ws"
    "p_goroutines c' = (p_goroutines c)(?n \<mapsto> (w, AtGetVMs))"
    "p_trace c' = p_trace c"
    using ne u by (simp_all add: ex)
  have d: "drop ?n ticks = w # ws" using inv Cons by (simp add: cron_inv_def)
  then have n: "?n < length ticks" by (cases "?n < length ticks") auto
  have w: "w = ticks ! ?n" and ws: "ws = drop (Suc ?n) ticks"
    using d n by (simp_all add: Cons_nth_drop_Suc [symmetric])
  have ev: "events_of i c' = events_of i c" for i by (simp add: events_of_def f)
  have ok: "firing_ok uid ep ticks c i" for i using inv by (simp add: cron_inv_def)
  have "firing_ok uid ep ticks c' i" for i
  proof (cases "i = ?n")
    case True
    have "events_of ?n c = []" using ok [of ?n] by (simp add: firing_ok_def)
    then show ?thesis using True w by (simp add: firing_ok_def ev f)
  next
    case False
    then show ?thesis using ok [of i] by (auto simp: firing_ok_def ev f split: option.splits)
  qed
  then have "cron_inv uid ep ticks c'" using n ws by (simp add: cron_inv_def f)
  then show ?thesis by (simp only: c'_def)
qed

lemma cron_inv_step:
  assumes inv: "cron_inv uid ep ticks c"
  shows "cron_inv uid ep ticks (exec_choice AtGetVMs (closure_step ep) c (Step i))"
proof (cases "p_goroutines c i")
  case None
  then show ?thesis using inv by (simp add: exec_choice_def)
next
  case (Some a)
  obtain w pc where a: "a = (w, pc)" by (cases a)
  obtain evs g out where st: "closure_step ep uid w pc = (evs, g, out)"
    by (cases "closure_step ep uid w pc")
  from closure_step_to_come [OF st] have g: "g = uid" and out: "out \<noteq> Exit"
    and tc: "to_come uid ep w pc =
      evs @ (case out of Next pc' \<Rightarrow> to_come uid ep w pc' | Return \<Rightarrow> [] | Exit \<Rightarrow> [])"
    by auto
  have ok: "firing_ok uid ep ticks c j" for j using inv by (simp add: cron_inv_def)
  have u: "p_userID c = uid" and ne: "\<not> p_exited c" using inv by (simp_all add: cron_inv_def)
  have i: "i < p_started c" and wi: "w = ticks ! i"
    and E: "events_of i c @ to_come uid ep w pc = tick uid ep w"
    using ok [of i] Some a by (auto simp: firing_ok_def split: if_splits)
  define gs where "gs = (case out of
      Next pc' \<Rightarrow> (p_goroutines c)(i \<mapsto> (w, pc'))
    | Return \<Rightarrow> (p_goroutines c)(i := None)
    | Exit \<Rightarrow> p_goroutines c)"
  define c' where "c' = exec_choice AtGetVMs (closure_step ep) c (Step i)"
  have ex: "c' = c \<lparr> p_userID := uid, p_trace := p_trace c @ map (Pair i) evs,
      p_goroutines := gs, p_exited := False \<rparr>"
    using ne Some a st u g out by (simp add: c'_def exec_choice_def gs_def)
  have f: "p_userID c' = uid" "\<not> p_exited c'" "p_started c' = p_started c"
    "p_pending c' = p_pending c" "p_goroutines c' = gs"
    "p_trace c' = p_trace c @ map (Pair i) evs"
    by (simp_all add: ex)
  have ev: "events_of j c' = events_of j c @ (if j = i then evs else [])" for j
    by (rule events_of_trace_append) (rule f(6))
  have "firing_ok uid ep ticks c' j" for j
  proof (cases "j = i")
    case True
    show ?thesis
    proof (cases out)
      case (Next pc')
      then have "gs i = Some (w, pc')" by (simp add: gs_def)
      then show ?thesis using True Next i wi E tc by (simp add: firing_ok_def ev f)
    next
      case Return
      then have "gs i = None" by (simp add: gs_def)
      then show ?thesis using True Return i wi E tc by (simp add: firing_ok_def ev f)
    next
      case Exit
      then show ?thesis using out by simp
    qed
  next
    case False
    have "gs j = p_goroutines c j" using False by (cases out) (simp_all add: gs_def)
    then show ?thesis using False ok [of j]
      by (auto simp: firing_ok_def ev f split: option.splits)
  qed
  then have "cron_inv uid ep ticks c'" using inv by (simp add: cron_inv_def f)
  then show ?thesis by (simp only: c'_def)
qed

lemma cron_inv_exec:
  "cron_inv uid ep ticks c \<Longrightarrow> cron_inv uid ep ticks (exec_choice AtGetVMs (closure_step ep) c ch)"
  by (cases ch) (simp_all add: cron_inv_fire cron_inv_step)

lemma cron_inv_run:
  "cron_inv uid ep ticks c \<Longrightarrow> cron_inv uid ep ticks (run AtGetVMs (closure_step ep) choices c)"
  unfolding run_def by (induction choices arbitrary: c) (simp_all add: cron_inv_exec)

lemma cron_inv_cron_run: "cron_inv uid ep ticks (cron_run uid ep ticks choices)"
  unfolding cron_run_def by (rule cron_inv_run [OF cron_inv_init])

lemma events_of_mem: "e \<in> set (events_of i c) \<longleftrightarrow> (i, e) \<in> set (p_trace c)"
  by (force simp: events_of_def)

lemma cron_inv_prefix:
  assumes "cron_inv uid ep ticks c"
  shows "prefix (events_of i c) (tick uid ep (ticks ! i))"
proof -
  have ok: "firing_ok uid ep ticks c i" using assms by (simp add: cron_inv_def)
  show ?thesis
  proof (cases "p_goroutines c i")
    case None
    then show ?thesis using ok by (simp add: firing_ok_def split: if_splits)
  next
    case (Some a)
    obtain w pc where "a = (w, pc)" by (cases a)
    then have "events_of i c @ to_come uid ep w pc = tick uid ep (ticks ! i)"
      using ok Some by (auto simp: firing_ok_def split: if_splits)
    then show ?thesis by (metis prefixI)
  qed
qed

lemma cron_inv_returned:
  assumes "cron_inv uid ep ticks c" and "returned i c"
  shows "events_of i c = tick uid ep (ticks ! i)"
proof -
  have "firing_ok uid ep ticks c i" using assms(1) by (simp add: cron_inv_def)
  then show ?thesis using assms(2) by (simp add: firing_ok_def returned_def)
qed

lemma cron_inv_trace:
  assumes "cron_inv uid ep ticks c" and "(i, e) \<in> set (p_trace c)"
  shows "i < length ticks \<and> e \<in> set (tick uid ep (ticks ! i))"
proof -
  have ok: "firing_ok uid ep ticks c i" and le: "p_started c \<le> length ticks"
    using assms(1) by (simp_all add: cron_inv_def)
  have e: "e \<in> set (events_of i c)" using assms(2) by (simp add: events_of_mem)
  then have "i < p_started c" using ok by (auto simp: firing_ok_def split: if_splits)
  moreover have "e \<in> set (tick uid ep (ticks ! i))"
    using e cron_inv_prefix [OF assms(1), of i] by (auto simp: prefix_def)
  ultimately show ?thesis using le by simp
qed

lemma run_append:
  "run start step (xs @ ys) c = run start step ys (run start step xs c)"
  by (simp add: run_def)

lemma cron_run_append:
  "cron_run uid ep ticks (xs @ ys) =
     run AtGetVMs (closure_step ep) ys (cron_run uid ep ticks xs)"
  by (simp add: cron_run_def run_append)

text \<open>Starting firings: after enough \<open>Fire\<close> choices every firing has been started.\<close>

lemma fire_started:
  assumes "cron_inv uid ep ticks c"
  shows "p_started (exec_choice AtGetVMs (closure_step ep) c Fire) =
           min (length ticks) (Suc (p_started c))"
proof (cases "p_pending c")
  case Nil
  then have "length ticks \<le> p_started c" using assms by (simp add: cron_inv_def)
  moreover have "p_started c \<le> length ticks" using assms by (simp add: cron_inv_def)
  ultimately show ?thesis using Nil by (simp add: exec_choice_def)
next
  case (Cons w ws)
  then have "drop (p_started c) ticks = w # ws" using assms by (simp add: cron_inv_def)
  then have "p_started c < length ticks" by (cases "p_started c < length ticks") auto
  moreover have "\<not> p_exited c" using assms by (simp add: cron_inv_def)
  ultimately show ?thesis using Cons by (simp add: exec_choice_def)
qed

lemma fire_all:
  assumes "cron_inv uid ep ticks c"
  shows "p_started (run AtGetVMs (closure_step ep) (replicate n Fire) c) =
           min (length ticks) (p_started c + n)"
  using assms
proof (induction n arbitrary: c)
  case 0
  then show ?case by (simp add: run_def cron_inv_def)
next
  case (Suc n)
  let ?c = "exec_choice AtGetVMs (closure_step ep) c Fire"
  have "cron_inv uid ep ticks ?c" using Suc.prems by (rule cron_inv_fire)
  from Suc.IH [OF this] fire_started [OF Suc.prems]
  show ?case by (simp add: run_def min_def)
qed

lemma left_0_iff: "remaining c i = 0 \<longleftrightarrow> p_goroutines c i = None"
proof (cases "p_goroutines c i")
  case None
  then show ?thesis by (simp add: remaining_def)
next
  case (Some a)
  obtain w pc where "a = (w, pc)" by (cases a)
  then show ?thesis using Some by (cases pc) (simp_all add: remaining_def)
qed

lemma closure_step_left:
  assumes "closure_step ep g w pc = (evs, g', out)"
  shows "(case out of Next pc' \<Rightarrow> steps_left pc' | Return \<Rightarrow> 0 | Exit \<Rightarrow> 0) < steps_left pc"
proof (cases pc)
  case AtGetVMs
  then show ?thesis using assms by auto
next
  case (AtCheckErr x)
  then show ?thesis using assms by (cases x) auto
next
  case (AtSend r)
  then show ?thesis using assms by auto
next
  case (AtCheckSend x)
  then show ?thesis using assms by (cases x) auto
qed

lemma step_left:
  fixes ep :: string and i :: nat
  assumes "cron_inv uid ep ticks c"
  defines "c' \<equiv> exec_choice AtGetVMs (closure_step ep) c (Step i)"
  shows "remaining c' i \<le> remaining c i - 1"
    and "j \<noteq> i \<Longrightarrow> remaining c' j = remaining c j"
    and "p_started c' = p_started c"
proof -
  have ne: "\<not> p_exited c" and u: "p_userID c = uid"
    using assms(1) by (simp_all add: cron_inv_def)
  show "remaining c' i \<le> remaining c i - 1"
  proof (cases "p_goroutines c i")
    case None
    then show ?thesis by (simp add: c'_def exec_choice_def remaining_def)
  next
    case (Some a)
    obtain w pc where a: "a = (w, pc)" by (cases a)
    obtain evs g out where st: "closure_step ep (p_userID c) w pc = (evs, g, out)"
      by (cases "closure_step ep (p_userID c) w pc")
    have "out \<noteq> Exit" using closure_step_to_come [of ep uid w pc evs g out] st u by simp
    with closure_step_left [OF st] show ?thesis
      using ne Some a st by (cases out) (simp_all add: c'_def exec_choice_def remaining_def)
  qed
  show "remaining c' j = remaining c j" if "j \<noteq> i"
  proof (cases "p_goroutines c i")
    case None
    then show ?thesis by (simp add: c'_def exec_choice_def)
  next
    case (Some a)
    obtain w pc where a: "a = (w, pc)" by (cases a)
    obtain evs g out where st: "closure_step ep (p_userID c) w pc = (evs, g, out)"
      by (cases "closure_step ep (p_userID c) w pc")
    show ?thesis
      using ne Some a st that by (cases out) (simp_all add: c'_def exec_choice_def remaining_def)
  qed
  show "p_started c' = p_started c"
  proof (cases "p_goroutines c i")
    case None
    then show ?thesis by (simp add: c'_def exec_choice_def)
  next
    case (Some a)
    obtain w pc where a: "a = (w, pc)" by (cases a)
    obtain evs g out where st: "closure_step ep (p_userID c) w pc = (evs, g, out)"
      by (cases "closure_step ep (p_userID c) w pc")
    show ?thesis
      using ne Some a st by (simp add: c'_def exec_choice_def)
  qed
qed

lemma steps_left_run:
  fixes ep :: string and i :: nat and n :: nat
  assumes "cron_inv uid ep ticks c"
  defines "c' \<equiv> run AtGetVMs (closure_step ep) (replicate n (Step i)) c"
  shows "remaining c' i \<le> remaining c i - n \<and> (\<forall>j. j \<noteq> i \<longrightarrow> remaining c' j = remaining c j) \<and>
         p_started c' = p_started c"
  unfolding c'_def using assms(1)
proof (induction n arbitrary: c)
  case 0
  then show ?case by (simp add: run_def)
next
  case (Suc n)
  let ?c = "exec_choice AtGetVMs (closure_step ep) c (Step i)"
  have inv: "cron_inv uid ep ticks ?c" using Suc.prems by (rule cron_inv_step)
  note s = step_left [OF Suc.prems, where i = i]
  from Suc.IH [OF inv] s(1) s(2) s(3)
  show ?case by (auto simp: run_def)
qed

lemma left_le_4: "remaining c i \<le> 4"
proof (cases "p_goroutines c i")
  case None
  then show ?thesis by (simp add: remaining_def)
next
  case (Some a)
  obtain w pc where "a = (w, pc)" by (cases a)
  then show ?thesis using Some by (cases pc) (simp_all add: remaining_def)
qed

lemma finish_run:
  fixes ep :: string and js :: "nat list"
  assumes "cron_inv uid ep ticks c"
  defines "c' \<equiv> run AtGetVMs (closure_step ep) (finish js) c"
  shows "cron_inv uid ep ticks c' \<and> p_started c' = p_started c \<and>
         (\<forall>j. (j \<in> set js \<or> remaining c j = 0) \<longrightarrow> remaining c' j = 0)"
  unfolding c'_def using assms(1)
proof (induction js arbitrary: c)
  case Nil
  then show ?case by (simp add: finish_def run_def)
next
  case (Cons i js)
  let ?c = "run AtGetVMs (closure_step ep) (replicate 4 (Step i)) c"
  have inv: "cron_inv uid ep ticks ?c" using Cons.prems by (rule cron_inv_run)
  have s: "remaining ?c i \<le> remaining c i - 4" "\<And>j. j \<noteq> i \<Longrightarrow> remaining ?c j = remaining c j"
    "p_started ?c = p_started c"
    using steps_left_run [OF Cons.prems, where n = 4 and i = i] by auto
  have i0: "remaining ?c i = 0" using s(1) left_le_4 [of c i] by simp
  have r: "run AtGetVMs (closure_step ep) (finish (i # js)) c =
      run AtGetVMs (closure_step ep) (finish js) ?c"
    by (simp add: finish_def run_append)
  have keep: "remaining ?c j = 0" if "remaining c j = 0" for j
    using that i0 s(2) [of j] by (cases "j = i") simp_all
  show ?case
    unfolding r using Cons.IH [OF inv] s(3) i0 keep s(2) by auto
qed

lemma drain_run:
  fixes ep :: string
  assumes "cron_inv uid ep ticks c"
  defines "c' \<equiv> run AtGetVMs (closure_step ep) (drain (length ticks)) c"
  shows "cron_inv uid ep ticks c'" and "i < length ticks \<Longrightarrow> returned i c'"
proof -
  let ?n = "length ticks"
  let ?c1 = "run AtGetVMs (closure_step ep) (replicate ?n Fire) c"
  have inv1: "cron_inv uid ep ticks ?c1" using assms(1) by (rule cron_inv_run)
  have st1: "p_started ?c1 = ?n" using fire_all [OF assms(1), where n = ?n] by simp
  have c': "c' = run AtGetVMs (closure_step ep) (finish [0..<?n]) ?c1"
    by (simp add: c'_def drain_def run_append)
  note f = finish_run [OF inv1, where js = "[0..<?n]", folded c']
  show "cron_inv uid ep ticks c'" using f by simp
  show "returned i c'" if "i < ?n"
  proof -
    have "remaining c' i = 0" using f that by simp
    then have "p_goroutines c' i = None" by (simp add: left_0_iff)
    moreover have "p_started c' = ?n" using f st1 by simp
    ultimately show ?thesis using that by (simp add: returned_def)
  qed
qed

text \<open>
  The process can express a job that ends it: when a step of a goroutine has the outcome
  \<open>Exit\<close>, its events are the last of the trace and no later choice changes anything,
  so the firings that follow never run.
\<close>

lemma exec_choice_exited: "p_exited c \<Longrightarrow> exec_choice start step c ch = c"
  by (simp add: exec_choice_def)

lemma run_exited: "p_exited c \<Longrightarrow> run start step choices c = c"
  by (induction choices) (simp_all add: run_def exec_choice_exited)

lemma exit_ends_process:
  assumes "\<not> p_exited c" and "p_goroutines c i = Some (w, pc)"
    and "step (p_userID c) w pc = (evs, g, Exit)"
  shows "run start step (Step i # choices) c =
           c \<lparr> p_userID := g, p_trace := p_trace c @ map (Pair i) evs, p_exited := True \<rparr>"
proof -
  let ?c = "c \<lparr> p_userID := g, p_trace := p_trace c @ map (Pair i) evs, p_exited := True \<rparr>"
  have "exec_choice start step c (Step i) = ?c"
    using assms by (simp add: exec_choice_def)
  moreover have "run start step choices ?c = ?c" by (rule run_exited) simp
  ultimately show ?thesis by (simp add: run_def)
qed

text \<open>
  Firings overlap: with two firings that both succeed, the second may call the collector
  and the dispatcher between the call of the collector and the call of the dispatcher of
  the first.
\<close>

lemma firings_overlap:
  "map fst (p_trace (cron_run ''alice'' ''http://c/api/vm/list'' [world_ok, world_ok]
      [Fire, Step 0, Fire, Step 1, Step 1, Step 1, Step 0, Step 0, Step 0, Step 1]))
     = [0, 1, 1, 0]"
proof -
  obtain r where r: "getVMs world_ok ''alice'' = Inr r"
    by (simp add: getVMs_def world_ok_def)
  have s: "sendToServer world_ok v ''http://c/api/vm/list'' = Inr ()" for v
    by (simp add: sendToServer_def world_ok_def ok_response_def StatusOK_def)
  show ?thesis
    by (simp add: cron_run_def run_def exec_choice_def init_process_def r s)
qed

section \<open>Login and startup\<close>

lemma login_Inr_iff:
  "login w c ep = Inr r \<longleftrightarrow>
     (\<exists>body resp. json_Marshal_LoginCredentials w c = Inr body \<and>
        http_Post w ep ''application/json'' body = Inr resp \<and>
        StatusCode resp = 200 \<and>
        json_Decode_LoginResponse w (Body resp) = Inr r)"
  by (auto simp: login_def StatusOK_def split: sum.splits)

lemma main_login_error:
  assumes "godotenv_Load s = None"
    and "login (login_world s) \<lparr> ID = scanned_ID s, Password = scanned_Password s \<rparr>
           (SERVER_URL s @ ''/api/user/login'') = Inl err"
  shows "main s ticks choices = [LogFatal (ErrorLoggingIn err)]"
  using assms by (simp add: main_def)

lemma main_login_ok:
  assumes "godotenv_Load s = None"
    and "login (login_world s) \<lparr> ID = scanned_ID s, Password = scanned_Password s \<rparr>
           (SERVER_URL s @ ''/api/user/login'') = Inr loginResp"
  shows "main s ticks choices =
           CronAddFunc ''*/5 * * * *'' # CronStart #
           map snd (p_trace
             (cron_run (lr_UserID loginResp) (SERVER_URL s @ ''/api/vm/list'') ticks choices))"
  using assms by (simp add: main_def)

text \<open>
  C3: \<open>login\<close> returns a LoginResponse only when the POST answered with status 200 and
  the body decoded; a transport error, any other status and a decode failure each make
  it return an error; and on an error of \<open>login\<close> the run of \<open>main\<close> is the fatal log
  line alone, whatever firings and choices of the runtime would have followed: no job is
  registered and the collector is never called.
\<close>

theorem login_only_on_200_else_fatal:
  "(login w c ep = Inr r \<longrightarrow>
      (\<exists>body resp. json_Marshal_LoginCredentials w c = Inr body \<and>
         http_Post w ep ''application/json'' body = Inr resp \<and>
         StatusCode resp = 200 \<and>
         json_Decode_LoginResponse w (Body resp) = Inr r)) \<and>
   (json_Marshal_LoginCredentials w c = Inr body \<and>
    http_Post w ep ''application/json'' body = Inl e \<longrightarrow>
      login w c ep = Inl (LoginRequestFailed e)) \<and>
   (json_Marshal_LoginCredentials w c = Inr body \<and>
    http_Post w ep ''application/json'' body = Inr resp \<and>
    StatusCode resp \<noteq> 200 \<longrightarrow>
      login w c ep = Inl (LoginFailedWithStatusCode (StatusCode resp))) \<and>
   (json_Marshal_LoginCredentials w c = Inr body \<and>
    http_Post w ep ''application/json'' body = Inr resp \<and>
    StatusCode resp = 200 \<and>
    json_Decode_LoginResponse w (Body resp) = Inl e \<longrightarrow>
      login w c ep = Inl (FailedToDecodeLoginResponse e)) \<and>
   (godotenv_Load s = None \<and>
    login (login_world s) \<lparr> ID = scanned_ID s, Password = scanned_Password s \<rparr>
      (SERVER_URL s @ ''/api/user/login'') = Inl err \<longrightarrow>
      main s ticks choices = [LogFatal (ErrorLoggingIn err)] \<and>
      CronAddFunc ''*/5 * * * *'' \<notin> set (main s ticks choices) \<and>
      CronStart \<notin> set (main s ticks choices) \<and>
      CallGetVMs \<notin> set (main s ticks choices))"
proof (intro conjI impI)
  assume "login w c ep = Inr r"
  then show "\<exists>body resp. json_Marshal_LoginCredentials w c = Inr body \<and>
         http_Post w ep ''application/json'' body = Inr resp \<and>
         StatusCode resp = 200 \<and>
         json_Decode_LoginResponse w (Body resp) = Inr r"
    by (simp add: login_Inr_iff)
next
  assume "json_Marshal_LoginCredentials w c = Inr body \<and>
    http_Post w ep ''application/json'' body = Inl e"
  then show "login w c ep = Inl (LoginRequestFailed e)"
    by (simp add: login_def)
next
  assume "json_Marshal_LoginCredentials w c = Inr body \<and>
    http_Post w ep ''application/json'' body = Inr resp \<and>
    StatusCode resp \<noteq> 200"
  then show "login w c ep = Inl (LoginFailedWithStatusCode (StatusCode resp))"
    by (simp add: login_def StatusOK_def)
next
  assume "json_Marshal_LoginCredentials w c = Inr body \<and>
    http_Post w ep ''application/json'' body = Inr resp \<and>
    StatusCode resp = 200 \<and>
    json_Decode_LoginResponse w (Body resp) = Inl e"
  then show "login w c ep = Inl (FailedToDecodeLoginResponse e)"
    by (simp add: login_def StatusOK_def)
next
  assume a: "godotenv_Load s = None \<and>
    login (login_world s) \<lparr> ID = scanned_ID s, Password = scanned_Password s \<rparr>
      (SERVER_URL s @ ''/api/user/login'') = Inl err"
  then have m: "main s ticks choices = [LogFatal (ErrorLoggingIn err)]"
    by (simp add: main_login_error)
  show "main s ticks choices = [LogFatal (ErrorLoggingIn err)]" by (rule m)
  show "CronAddFunc ''*/5 * * * *'' \<notin> set (main s ticks choices)" by (simp add: m)
  show "CronStart \<notin> set (main s ticks choices)" by (simp add: m)
  show "CallGetVMs \<notin> set (main s ticks choices)" by (simp add: m)
qed

theorem login_only_on_200_else_fatal_witness:
  "login world_ok \<lparr> ID = ''alice'', Password = ''pw'' \<rparr> ''http://c/api/user/login''
     = Inr sample_login \<and>
   (\<exists>body resp.
      json_Marshal_LoginCredentials world_ok \<lparr> ID = ''alice'', Password = ''pw'' \<rparr>
        = Inr body \<and>
      http_Post world_ok ''http://c/api/user/login'' ''application/json'' body = Inr resp \<and>
      StatusCode resp = 200 \<and>
      json_Decode_LoginResponse world_ok (Body resp) = Inr sample_login) \<and>
   http_Post world_offline ''http://c/api/user/login'' ''application/json'' ''{}''
     = Inl (Lib ''connection refused'') \<and>
   login world_offline \<lparr> ID = ''alice'', Password = ''pw'' \<rparr> ''http://c/api/user/login''
     = Inl (LoginRequestFailed (Lib ''connection refused'')) \<and>
   login world_401 \<lparr> ID = ''alice'', Password = ''pw'' \<rparr> ''http://c/api/user/login''
     = Inl (LoginFailedWithStatusCode 401) \<and>
   json_Decode_LoginResponse world_bad_body (Body ok_response) = Inl (Lib ''unexpected EOF'') \<and>
   login world_bad_body \<lparr> ID = ''alice'', Password = ''pw'' \<rparr> ''http://c/api/user/login''
     = Inl (FailedToDecodeLoginResponse (Lib ''unexpected EOF'')) \<and>
   godotenv_Load (sample_startup world_401) = None \<and>
   main (sample_startup world_401) [world_ok, world_ok] [Fire, Step 0, Fire, Step 1]
     = [LogFatal (ErrorLoggingIn (LoginFailedWithStatusCode 401))] \<and>
   CallGetVMs \<notin> set (main (sample_startup world_401) [world_ok, world_ok] [Fire, Step 0, Fire, Step 1])"
proof -
  let ?c = "\<lparr> ID = ''alice'', Password = ''pw'' \<rparr>"
  let ?ep = "''http://c/api/user/login''"
  let ?r401 = "\<lparr> StatusCode = 401, StatusLine = ''401 Unauthorized'', Body = [] \<rparr>"
  note t = login_only_on_200_else_fatal
  have ok: "login world_ok ?c ?ep = Inr sample_login"
    by (simp add: login_def world_ok_def ok_response_def StatusOK_def)
  have ok': "\<exists>body resp. json_Marshal_LoginCredentials world_ok ?c = Inr body \<and>
      http_Post world_ok ?ep ''application/json'' body = Inr resp \<and>
      StatusCode resp = 200 \<and>
      json_Decode_LoginResponse world_ok (Body resp) = Inr sample_login"
    using t [where w = world_ok and c = ?c and ep = ?ep and r = sample_login] ok by blast
  have poff: "json_Marshal_LoginCredentials world_offline ?c = Inr ''{}'' \<and>
      http_Post world_offline ?ep ''application/json'' ''{}'' = Inl (Lib ''connection refused'')"
    by (simp add: world_offline_def world_ok_def)
  have loff: "login world_offline ?c ?ep = Inl (LoginRequestFailed (Lib ''connection refused''))"
    using t [where w = world_offline and c = ?c and ep = ?ep and body = "''{}''"
        and e = "Lib ''connection refused''"] poff by blast
  have p401: "json_Marshal_LoginCredentials world_401 ?c = Inr ''{}'' \<and>
      http_Post world_401 ?ep ''application/json'' ''{}'' = Inr ?r401 \<and>
      StatusCode ?r401 \<noteq> 200"
    by (simp add: world_401_def world_ok_def)
  have l401: "login world_401 ?c ?ep = Inl (LoginFailedWithStatusCode 401)"
    using t [where w = world_401 and c = ?c and ep = ?ep and body = "''{}''"
        and resp = ?r401] p401 by simp
  have pbad: "json_Marshal_LoginCredentials world_bad_body ?c = Inr ''{}'' \<and>
      http_Post world_bad_body ?ep ''application/json'' ''{}'' = Inr ok_response \<and>
      StatusCode ok_response = 200 \<and>
      json_Decode_LoginResponse world_bad_body (Body ok_response) = Inl (Lib ''unexpected EOF'')"
    by (simp add: world_bad_body_def world_ok_def ok_response_def)
  have lbad: "login world_bad_body ?c ?ep
      = Inl (FailedToDecodeLoginResponse (Lib ''unexpected EOF''))"
    using t [where w = world_bad_body and c = ?c and ep = ?ep and body = "''{}''"
        and resp = ok_response and e = "Lib ''unexpected EOF''"] pbad by blast
  have s: "godotenv_Load (sample_startup world_401) = None \<and>
      login (login_world (sample_startup world_401))
        \<lparr> ID = scanned_ID (sample_startup world_401),
          Password = scanned_Password (sample_startup world_401) \<rparr>
        (SERVER_URL (sample_startup world_401) @ ''/api/user/login'')
      = Inl (LoginFailedWithStatusCode 401)"
    using l401 by (simp add: sample_startup_def)
  have m: "main (sample_startup world_401) [world_ok, world_ok] [Fire, Step 0, Fire, Step 1]
      = [LogFatal (ErrorLoggingIn (LoginFailedWithStatusCode 401))] \<and>
     CallGetVMs \<notin> set (main (sample_startup world_401) [world_ok, world_ok] [Fire, Step 0, Fire, Step 1])"
    using t [where s = "sample_startup world_401" and err = "LoginFailedWithStatusCode 401"
        and ticks = "[world_ok, world_ok]" and choices = "[Fire, Step 0, Fire, Step 1]"] s by blast
  have env: "godotenv_Load (sample_startup world_401) = None"
    using s by blast
  show ?thesis using ok ok' poff loff l401 pbad lbad env m by blast
qed

section \<open>The job under the scheduler\<close>

lemma getVMs_Inl_iff:
  "getVMs w u = Inl err \<longleftrightarrow>
     (\<exists>e. exec_Output w pvesh_command = Inl e \<and> err = FailedToExecutePvesh e) \<or>
     (\<exists>out e. exec_Output w pvesh_command = Inr out \<and>
        json_Unmarshal_VMInfos w out = Inl e \<and> err = FailedToUnmarshalJSON e)"
  by (auto simp: getVMs_def split: sum.splits)

lemma tick_collection_error:
  "getVMs w u = Inl err \<Longrightarrow> tick u ep w = [CallGetVMs, LogPrintf (ErrorGettingVMList err)]"
  by (simp add: tick_def)

text \<open>
  What holds of the process of this program after any choices: it has not ended and
  \<open>userID\<close> is what login set; every firing has emitted a prefix of what its closure
  emits when run by itself, all of it once it has returned; and the choices
  \<open>drain\<close> let every firing return.
\<close>

lemma cron_run_safe:
  "\<not> p_exited (cron_run uid ep ticks choices) \<and> p_userID (cron_run uid ep ticks choices) = uid"
  using cron_inv_cron_run [of uid ep ticks choices] by (simp add: cron_inv_def)

lemma cron_run_prefix:
  "prefix (events_of j (cron_run uid ep ticks choices)) (tick uid ep (ticks ! j))"
  by (rule cron_inv_prefix [OF cron_inv_cron_run])

lemma cron_run_returned:
  "returned j (cron_run uid ep ticks choices) \<Longrightarrow>
     events_of j (cron_run uid ep ticks choices) = tick uid ep (ticks ! j)"
  by (rule cron_inv_returned [OF cron_inv_cron_run])

lemma cron_run_drain:
  assumes "j < length ticks"
  shows "returned j (cron_run uid ep ticks (choices @ drain (length ticks))) \<and>
         events_of j (cron_run uid ep ticks (choices @ drain (length ticks)))
           = tick uid ep (ticks ! j)"
proof -
  have inv: "cron_inv uid ep ticks (cron_run uid ep ticks choices)"
    by (rule cron_inv_cron_run)
  have r: "returned j (cron_run uid ep ticks (choices @ drain (length ticks)))"
    unfolding cron_run_append using inv assms by (rule drain_run(2))
  then show ?thesis using cron_run_returned by simp
qed

lemma prefix_same_length:
  "prefix xs ys \<Longrightarrow> length xs = length ys \<Longrightarrow> xs = ys"
  by (auto simp: prefix_def)

text \<open>
  C4: when the inventory command fails or its output does not parse in a firing, the
  closure of that firing emits the call of the collector and one log line and no call
  of the dispatcher. In the process, whatever the interleaving with the goroutines of
  other firings, that firing has emitted a prefix of these two events and never a call
  of the dispatcher; the process has not ended and \<open>userID\<close> is unchanged; every firing,
  those after it included, has emitted a prefix of its own events, all of them once it
  has returned; and from there every firing can run to its return.
\<close>

theorem collection_failure_isolated:
  assumes "exec_Output w pvesh_command = Inl e \<or>
           (\<exists>out. exec_Output w pvesh_command = Inr out \<and>
              json_Unmarshal_VMInfos w out = Inl e)"
    and "i < length ticks" and "ticks ! i = w"
  shows "\<exists>err. getVMs w userID = Inl err \<and>
           tick userID ep w = [CallGetVMs, LogPrintf (ErrorGettingVMList err)] \<and>
           (\<forall>r u. CallSendToServer r u \<notin> set (tick userID ep w)) \<and>
           prefix (events_of i (cron_run userID ep ticks choices))
             [CallGetVMs, LogPrintf (ErrorGettingVMList err)] \<and>
           (\<forall>r u. (i, CallSendToServer r u) \<notin> set (p_trace (cron_run userID ep ticks choices))) \<and>
           \<not> p_exited (cron_run userID ep ticks choices) \<and>
           p_userID (cron_run userID ep ticks choices) = userID \<and>
           (\<forall>j < length ticks.
              prefix (events_of j (cron_run userID ep ticks choices))
                (tick userID ep (ticks ! j)) \<and>
              (returned j (cron_run userID ep ticks choices) \<longrightarrow>
                 events_of j (cron_run userID ep ticks choices) = tick userID ep (ticks ! j))) \<and>
           (\<forall>j < length ticks.
              returned j (cron_run userID ep ticks (choices @ drain (length ticks))) \<and>
              events_of j (cron_run userID ep ticks (choices @ drain (length ticks)))
                = tick userID ep (ticks ! j))"
proof -
  let ?c = "cron_run userID ep ticks choices"
  from assms(1) obtain err where err: "getVMs w userID = Inl err"
    by (auto simp: getVMs_def)
  have t: "tick userID ep w = [CallGetVMs, LogPrintf (ErrorGettingVMList err)]"
    by (rule tick_collection_error [OF err])
  have p: "prefix (events_of i ?c) [CallGetVMs, LogPrintf (ErrorGettingVMList err)]"
    using cron_run_prefix [of i userID ep ticks choices] by (simp add: assms(3) t)
  have n: "(i, CallSendToServer r u) \<notin> set (p_trace ?c)" for r u
  proof
    assume "(i, CallSendToServer r u) \<in> set (p_trace ?c)"
    then have "CallSendToServer r u \<in> set (events_of i ?c)" by (simp add: events_of_mem)
    then have "CallSendToServer r u \<in> set [CallGetVMs, LogPrintf (ErrorGettingVMList err)]"
      using p set_mono_prefix by blast
    then show False by simp
  qed
  show ?thesis
    using err t p n cron_run_safe [of userID ep ticks choices]
      cron_run_prefix [of _ userID ep ticks choices]
      cron_run_returned [of _ userID ep ticks choices]
      cron_run_drain [of _ ticks userID ep choices]
    by (intro exI [of _ err]) simp
qed


theorem collection_failure_isolated_witness:
  "exec_Output world_pvesh_fails pvesh_command = Inl (Lib ''exit status 1'') \<and>
   (1::nat) < length [world_ok, world_pvesh_fails, world_ok] \<and>
   [world_ok, world_pvesh_fails, world_ok] ! 1 = world_pvesh_fails \<and>
   getVMs world_pvesh_fails ''alice'' = Inl (FailedToExecutePvesh (Lib ''exit status 1'')) \<and>
   tick ''alice'' ''http://c/api/vm/list'' world_pvesh_fails =
     [CallGetVMs,
      LogPrintf (ErrorGettingVMList (FailedToExecutePvesh (Lib ''exit status 1'')))] \<and>
   map fst (p_trace (cron_run ''alice'' ''http://c/api/vm/list''
       [world_ok, world_pvesh_fails, world_ok]
       [Fire, Step 0, Fire, Step 1, Fire, Step 2, Step 1, Step 2, Step 2, Step 0, Step 0]))
     = [0, 1, 2, 1, 2, 0] \<and>
   events_of 1 (cron_run ''alice'' ''http://c/api/vm/list''
       [world_ok, world_pvesh_fails, world_ok]
       [Fire, Step 0, Fire, Step 1, Fire, Step 2, Step 1, Step 2, Step 2, Step 0, Step 0])
     = [CallGetVMs,
        LogPrintf (ErrorGettingVMList (FailedToExecutePvesh (Lib ''exit status 1'')))] \<and>
   \<not> p_exited (cron_run ''alice'' ''http://c/api/vm/list''
       [world_ok, world_pvesh_fails, world_ok]
       [Fire, Step 0, Fire, Step 1, Fire, Step 2, Step 1, Step 2, Step 2, Step 0, Step 0]) \<and>
   returned 2 (cron_run ''alice'' ''http://c/api/vm/list''
       [world_ok, world_pvesh_fails, world_ok]
       ([Fire, Step 0, Fire, Step 1, Fire, Step 2, Step 1, Step 2, Step 2, Step 0, Step 0]
        @ drain 3)) \<and>
   events_of 2 (cron_run ''alice'' ''http://c/api/vm/list''
       [world_ok, world_pvesh_fails, world_ok]
       ([Fire, Step 0, Fire, Step 1, Fire, Step 2, Step 1, Step 2, Step 2, Step 0, Step 0]
        @ drain 3))
     = tick ''alice'' ''http://c/api/vm/list'' world_ok \<and>
   exec_Output world_bad_json pvesh_command = Inr ''[]'' \<and>
   json_Unmarshal_VMInfos world_bad_json ''[]'' = Inl (Lib ''unexpected end of JSON input'') \<and>
   tick ''alice'' ''http://c/api/vm/list'' world_bad_json =
     [CallGetVMs,
      LogPrintf (ErrorGettingVMList
        (FailedToUnmarshalJSON (Lib ''unexpected end of JSON input'')))]"
proof -
  let ?ep = "''http://c/api/vm/list''"
  let ?ticks = "[world_ok, world_pvesh_fails, world_ok]"
  let ?ch = "[Fire, Step 0, Fire, Step 1, Fire, Step 2, Step 1, Step 2, Step 2, Step 0, Step 0]"
  let ?err = "FailedToExecutePvesh (Lib ''exit status 1'')"
  note t = collection_failure_isolated
  have h: "exec_Output world_pvesh_fails pvesh_command = Inl (Lib ''exit status 1'')"
    by (simp add: world_pvesh_fails_def world_ok_def)
  have g: "getVMs world_pvesh_fails ''alice'' = Inl ?err"
    by (simp add: getVMs_def h)
  obtain r where r: "getVMs world_ok ''alice'' = Inr r"
    by (simp add: getVMs_def world_ok_def)
  have tr: "map fst (p_trace (cron_run ''alice'' ?ep ?ticks ?ch)) = [0, 1, 2, 1, 2, 0]"
    by (simp add: cron_run_def run_def exec_choice_def init_process_def g r)
  have i1: "(1::nat) < length ?ticks" "?ticks ! 1 = world_pvesh_fails" by simp_all
  from t [where w = world_pvesh_fails and e = "Lib ''exit status 1''" and i = 1
      and ticks = ?ticks and userID = "''alice''" and ep = ?ep and choices = ?ch] h i1
  obtain err' where a: "getVMs world_pvesh_fails ''alice'' = Inl err'"
    and b: "tick ''alice'' ?ep world_pvesh_fails = [CallGetVMs, LogPrintf (ErrorGettingVMList err')]"
    and p': "prefix (events_of 1 (cron_run ''alice'' ?ep ?ticks ?ch))
        [CallGetVMs, LogPrintf (ErrorGettingVMList err')]"
    and ne: "\<not> p_exited (cron_run ''alice'' ?ep ?ticks ?ch)"
    and fin': "\<forall>j < length ?ticks.
      returned j (cron_run ''alice'' ?ep ?ticks (?ch @ drain (length ?ticks))) \<and>
      events_of j (cron_run ''alice'' ?ep ?ticks (?ch @ drain (length ?ticks)))
        = tick ''alice'' ?ep (?ticks ! j)"
    by blast
  have err': "err' = ?err" using a g by simp
  have 1: "tick ''alice'' ?ep world_pvesh_fails = [CallGetVMs, LogPrintf (ErrorGettingVMList ?err)]"
    using b by (simp only: err')
  have p: "prefix (events_of 1 (cron_run ''alice'' ?ep ?ticks ?ch))
        [CallGetVMs, LogPrintf (ErrorGettingVMList ?err)]"
    using p' by (simp only: err')
  have fin: "returned 2 (cron_run ''alice'' ?ep ?ticks (?ch @ drain 3)) \<and>
      events_of 2 (cron_run ''alice'' ?ep ?ticks (?ch @ drain 3)) = tick ''alice'' ?ep world_ok"
  proof -
    have l: "length ?ticks = 3" by simp
    have "\<forall>j < 3.
      returned j (cron_run ''alice'' ?ep ?ticks (?ch @ drain 3)) \<and>
      events_of j (cron_run ''alice'' ?ep ?ticks (?ch @ drain 3))
        = tick ''alice'' ?ep (?ticks ! j)"
      using fin' by (simp only: l)
    from this [rule_format, of 2] show ?thesis by simp
  qed
  have len: "length (events_of 1 (cron_run ''alice'' ?ep ?ticks ?ch))
      = length [CallGetVMs, LogPrintf (ErrorGettingVMList ?err)]"
    by (simp add: events_of_def cron_run_def run_def exec_choice_def
        init_process_def g r)
  from p len have e1: "events_of 1 (cron_run ''alice'' ?ep ?ticks ?ch)
      = [CallGetVMs, LogPrintf (ErrorGettingVMList ?err)]"
    by (rule prefix_same_length)
  have j: "exec_Output world_bad_json pvesh_command = Inr ''[]''"
    "json_Unmarshal_VMInfos world_bad_json ''[]'' = Inl (Lib ''unexpected end of JSON input'')"
    by (simp_all add: world_bad_json_def world_ok_def)
  have gj: "getVMs world_bad_json ''alice'' =
      Inl (FailedToUnmarshalJSON (Lib ''unexpected end of JSON input''))"
    by (simp add: getVMs_def j)
  have 2: "tick ''alice'' ?ep world_bad_json =
     [CallGetVMs,
      LogPrintf (ErrorGettingVMList
        (FailedToUnmarshalJSON (Lib ''unexpected end of JSON input'')))]"
    using t [where w = world_bad_json and e = "Lib ''unexpected end of JSON input''"
        and i = 0 and ticks = "[world_bad_json]" and userID = "''alice''" and ep = ?ep
        and choices = "[]"] j gj by auto
  show ?thesis using h i1 g 1 tr e1 ne fin j 2 by simp
qed

section \<open>The dispatcher\<close>

lemma sendToServer_Inr_iff:
  "sendToServer w vmList url = Inr u \<longleftrightarrow>
     (\<exists>data req resp. json_Marshal_Response w vmList = Inr data \<and>
        http_NewRequest w ''POST'' url data = Inr req \<and>
        client_Do w (req \<lparr> ContentType := ''application/json'' \<rparr>) = Inr resp \<and>
        StatusCode resp = 200)"
  by (auto simp: sendToServer_def StatusOK_def split: sum.splits)

lemma tick_no_fatal: "LogFatal m \<notin> set (tick u ep w)"
  by (auto simp: tick_def Let_def split: sum.splits)

lemma cron_run_no_fatal: "(j, LogFatal m) \<notin> set (p_trace (cron_run uid ep ticks choices))"
  using cron_inv_trace [OF cron_inv_cron_run, of j "LogFatal m" uid ep ticks choices]
    tick_no_fatal
  by blast

text \<open>
  C5: \<open>sendToServer\<close> succeeds exactly when the batch was marshalled, the POST request
  was sent and the response has status 200. A transport error is returned as it is, a
  response with another status gives an error that carries the status line. When
  \<open>sendToServer\<close> fails in a firing, the closure of that firing ends with one log line
  and returns, and nothing fatal is logged. In the process, whatever the interleaving
  with the goroutines of other firings, that firing has emitted a prefix of these
  events, no goroutine has logged anything fatal, the process has not ended, and from
  there every firing can run to its return.
\<close>

theorem sendToServer_ok_iff_200:
  "(sendToServer w vmList url = Inr () \<longleftrightarrow>
      (\<exists>data req resp. json_Marshal_Response w vmList = Inr data \<and>
         http_NewRequest w ''POST'' url data = Inr req \<and>
         client_Do w (req \<lparr> ContentType := ''application/json'' \<rparr>) = Inr resp \<and>
         StatusCode resp = 200)) \<and>
   (json_Marshal_Response w vmList = Inr data \<and>
    http_NewRequest w ''POST'' url data = Inr req \<and>
    client_Do w (req \<lparr> ContentType := ''application/json'' \<rparr>) = Inl e \<longrightarrow>
      sendToServer w vmList url = Inl e) \<and>
   (json_Marshal_Response w vmList = Inr data \<and>
    http_NewRequest w ''POST'' url data = Inr req \<and>
    client_Do w (req \<lparr> ContentType := ''application/json'' \<rparr>) = Inr resp \<and>
    StatusCode resp \<noteq> 200 \<longrightarrow>
      sendToServer w vmList url = Inl (ReceivedNonOKResponse (StatusLine resp))) \<and>
   (getVMs w userID = Inr r \<and>
    sendToServer w \<lparr> UserId = userID, Vms = Vms r \<rparr> ep = Inl err \<longrightarrow>
      tick userID ep w =
        [CallGetVMs, CallSendToServer \<lparr> UserId = userID, Vms = Vms r \<rparr> ep,
         LogPrintf (ErrorSendingVMList err)] \<and>
      (\<forall>m. LogFatal m \<notin> set (tick userID ep w)) \<and>
      closure_step ep userID w (AtCheckSend (Inl err)) =
        ([LogPrintf (ErrorSendingVMList err)], userID, Return) \<and>
      (i < length ticks \<and> ticks ! i = w \<longrightarrow>
         prefix (events_of i (cron_run userID ep ticks choices))
           [CallGetVMs, CallSendToServer \<lparr> UserId = userID, Vms = Vms r \<rparr> ep,
            LogPrintf (ErrorSendingVMList err)] \<and>
         (\<forall>j m. (j, LogFatal m) \<notin> set (p_trace (cron_run userID ep ticks choices))) \<and>
         \<not> p_exited (cron_run userID ep ticks choices) \<and>
         (\<forall>j < length ticks.
            returned j (cron_run userID ep ticks (choices @ drain (length ticks))) \<and>
            events_of j (cron_run userID ep ticks (choices @ drain (length ticks)))
              = tick userID ep (ticks ! j))))"
proof (intro conjI impI)
  show "sendToServer w vmList url = Inr () \<longleftrightarrow>
      (\<exists>data req resp. json_Marshal_Response w vmList = Inr data \<and>
         http_NewRequest w ''POST'' url data = Inr req \<and>
         client_Do w (req \<lparr> ContentType := ''application/json'' \<rparr>) = Inr resp \<and>
         StatusCode resp = 200)"
    by (rule sendToServer_Inr_iff)
next
  assume "json_Marshal_Response w vmList = Inr data \<and>
    http_NewRequest w ''POST'' url data = Inr req \<and>
    client_Do w (req \<lparr> ContentType := ''application/json'' \<rparr>) = Inl e"
  then show "sendToServer w vmList url = Inl e"
    by (simp add: sendToServer_def)
next
  assume "json_Marshal_Response w vmList = Inr data \<and>
    http_NewRequest w ''POST'' url data = Inr req \<and>
    client_Do w (req \<lparr> ContentType := ''application/json'' \<rparr>) = Inr resp \<and>
    StatusCode resp \<noteq> 200"
  then show "sendToServer w vmList url = Inl (ReceivedNonOKResponse (StatusLine resp))"
    by (simp add: sendToServer_def StatusOK_def)
next
  assume a: "getVMs w userID = Inr r \<and>
    sendToServer w \<lparr> UserId = userID, Vms = Vms r \<rparr> ep = Inl err"
  then have t: "tick userID ep w =
        [CallGetVMs, CallSendToServer \<lparr> UserId = userID, Vms = Vms r \<rparr> ep,
         LogPrintf (ErrorSendingVMList err)]"
    by (simp add: tick_def)
  show "tick userID ep w =
        [CallGetVMs, CallSendToServer \<lparr> UserId = userID, Vms = Vms r \<rparr> ep,
         LogPrintf (ErrorSendingVMList err)]"
    by (rule t)
  show "\<forall>m. LogFatal m \<notin> set (tick userID ep w)"
    by (simp add: t)
  show "closure_step ep userID w (AtCheckSend (Inl err)) =
        ([LogPrintf (ErrorSendingVMList err)], userID, Return)"
    by simp
  assume b: "i < length ticks \<and> ticks ! i = w"
  show "prefix (events_of i (cron_run userID ep ticks choices))
           [CallGetVMs, CallSendToServer \<lparr> UserId = userID, Vms = Vms r \<rparr> ep,
            LogPrintf (ErrorSendingVMList err)]"
    using cron_run_prefix [of i userID ep ticks choices] b by (simp add: t)
  show "\<forall>j m. (j, LogFatal m) \<notin> set (p_trace (cron_run userID ep ticks choices))"
    by (simp add: cron_run_no_fatal)
  show "\<not> p_exited (cron_run userID ep ticks choices)"
    by (simp add: cron_run_safe)
  show "\<forall>j < length ticks.
            returned j (cron_run userID ep ticks (choices @ drain (length ticks))) \<and>
            events_of j (cron_run userID ep ticks (choices @ drain (length ticks)))
              = tick userID ep (ticks ! j)"
    using cron_run_drain [of _ ticks userID ep choices] by simp
qed

theorem sendToServer_ok_iff_200_witness:
  "json_Marshal_Response world_ok \<lparr> UserId = ''alice'', Vms = Slice [] \<rparr> = Inr ''{}'' \<and>
   client_Do world_ok
     \<lparr> Method = ''POST'', URL = ''http://c/api/vm/list'',
       ContentType = ''application/json'', Payload = ''{}'' \<rparr>
     = Inr ok_response \<and>
   StatusCode ok_response = 200 \<and>
   sendToServer world_ok \<lparr> UserId = ''alice'', Vms = Slice [] \<rparr> ''http://c/api/vm/list''
     = Inr () \<and>
   client_Do world_offline
     \<lparr> Method = ''POST'', URL = ''http://c/api/vm/list'',
       ContentType = ''application/json'', Payload = ''{}'' \<rparr>
     = Inl (Lib ''connection refused'') \<and>
   sendToServer world_offline \<lparr> UserId = ''alice'', Vms = Slice [] \<rparr> ''http://c/api/vm/list''
     = Inl (Lib ''connection refused'') \<and>
   client_Do world_500
     \<lparr> Method = ''POST'', URL = ''http://c/api/vm/list'',
       ContentType = ''application/json'', Payload = ''{}'' \<rparr>
     = Inr \<lparr> StatusCode = 500, StatusLine = ''500 Internal Server Error'', Body = [] \<rparr> \<and>
   sendToServer world_500 \<lparr> UserId = ''alice'', Vms = Slice [] \<rparr> ''http://c/api/vm/list''
     = Inl (ReceivedNonOKResponse ''500 Internal Server Error'') \<and>
   (\<exists>r. getVMs world_500 ''alice'' = Inr r \<and>
      tick ''alice'' ''http://c/api/vm/list'' world_500 =
        [CallGetVMs,
         CallSendToServer \<lparr> UserId = ''alice'', Vms = Vms r \<rparr> ''http://c/api/vm/list'',
         LogPrintf (ErrorSendingVMList (ReceivedNonOKResponse ''500 Internal Server Error''))] \<and>
      p_trace (cron_run ''alice'' ''http://c/api/vm/list'' [world_500, world_ok]
          [Fire, Fire, Step 1, Step 0, Step 0, Step 1, Step 0, Step 0])
        = [(1, CallGetVMs), (0, CallGetVMs),
           (0, CallSendToServer \<lparr> UserId = ''alice'', Vms = Vms r \<rparr> ''http://c/api/vm/list''),
           (0, LogPrintf (ErrorSendingVMList
                 (ReceivedNonOKResponse ''500 Internal Server Error'')))] \<and>
      \<not> p_exited (cron_run ''alice'' ''http://c/api/vm/list'' [world_500, world_ok]
          [Fire, Fire, Step 1, Step 0, Step 0, Step 1, Step 0, Step 0]) \<and>
      returned 1 (cron_run ''alice'' ''http://c/api/vm/list'' [world_500, world_ok]
          ([Fire, Fire, Step 1, Step 0, Step 0, Step 1, Step 0, Step 0] @ drain 2)) \<and>
      events_of 1 (cron_run ''alice'' ''http://c/api/vm/list'' [world_500, world_ok]
          ([Fire, Fire, Step 1, Step 0, Step 0, Step 1, Step 0, Step 0] @ drain 2))
        = tick ''alice'' ''http://c/api/vm/list'' world_ok)"
proof -
  let ?url = "''http://c/api/vm/list''"
  let ?b = "\<lparr> UserId = ''alice'', Vms = Slice [] \<rparr>"
  let ?req = "\<lparr> Method = ''POST'', URL = ?url, ContentType = [], Payload = ''{}'' \<rparr>"
  let ?req' = "\<lparr> Method = ''POST'', URL = ?url, ContentType = ''application/json'',
      Payload = ''{}'' \<rparr>"
  let ?r500 = "\<lparr> StatusCode = 500, StatusLine = ''500 Internal Server Error'', Body = [] \<rparr>"
  let ?ticks = "[world_500, world_ok]"
  let ?ch = "[Fire, Fire, Step 1, Step 0, Step 0, Step 1, Step 0, Step 0]"
  let ?err = "ReceivedNonOKResponse ''500 Internal Server Error''"
  note t = sendToServer_ok_iff_200
  have upd: "?req \<lparr> ContentType := ''application/json'' \<rparr> = ?req'" by simp
  have pok: "json_Marshal_Response world_ok ?b = Inr ''{}'' \<and>
      http_NewRequest world_ok ''POST'' ?url ''{}'' = Inr ?req \<and>
      client_Do world_ok ?req' = Inr ok_response \<and>
      StatusCode ok_response = 200"
    by (simp add: world_ok_def ok_response_def)
  have ok: "sendToServer world_ok ?b ?url = Inr ()"
    using t [where w = world_ok and vmList = ?b and url = ?url] pok upd by metis
  have poff: "json_Marshal_Response world_offline v = Inr ''{}'' \<and>
      http_NewRequest world_offline ''POST'' ?url ''{}'' = Inr ?req \<and>
      client_Do world_offline ?req' = Inl (Lib ''connection refused'')" for v
    by (simp add: world_offline_def world_ok_def)
  have off: "sendToServer world_offline ?b ?url = Inl (Lib ''connection refused'')"
    using t [where w = world_offline and vmList = ?b and url = ?url and data = "''{}''"
        and req = ?req and e = "Lib ''connection refused''"] poff [of ?b] upd
    by simp
  have pre: "json_Marshal_Response world_500 v = Inr ''{}'' \<and>
      http_NewRequest world_500 ''POST'' ?url ''{}'' = Inr ?req \<and>
      client_Do world_500 ?req' = Inr ?r500 \<and>
      StatusCode ?r500 \<noteq> 200" for v
    by (simp add: world_500_def world_ok_def)
  have bad: "sendToServer world_500 v ?url = Inl ?err" for v
    using t [where w = world_500 and vmList = v and url = ?url
        and data = "''{}''" and req = ?req and resp = ?r500] pre [of v] upd
    by simp
  obtain r where r: "getVMs world_500 ''alice'' = Inr r"
    by (simp add: getVMs_def world_500_def world_ok_def)
  obtain r' where r': "getVMs world_ok ''alice'' = Inr r'"
    by (simp add: getVMs_def world_ok_def)
  have i0: "(0::nat) < length ?ticks \<and> ?ticks ! 0 = world_500" by simp
  have l: "length ?ticks = 2" by simp
  from t [where w = world_500 and userID = "''alice''" and r = r
        and ep = ?url and err = ?err and i = 0 and ticks = ?ticks and choices = ?ch] r bad i0
  have tk: "tick ''alice'' ?url world_500 =
        [CallGetVMs, CallSendToServer \<lparr> UserId = ''alice'', Vms = Vms r \<rparr> ?url,
         LogPrintf (ErrorSendingVMList ?err)]"
    and ne: "\<not> p_exited (cron_run ''alice'' ?url ?ticks ?ch)"
    and fin': "\<forall>j < length ?ticks.
      returned j (cron_run ''alice'' ?url ?ticks (?ch @ drain (length ?ticks))) \<and>
      events_of j (cron_run ''alice'' ?url ?ticks (?ch @ drain (length ?ticks)))
        = tick ''alice'' ?url (?ticks ! j)"
    by blast+
  have "\<forall>j < 2.
      returned j (cron_run ''alice'' ?url ?ticks (?ch @ drain 2)) \<and>
      events_of j (cron_run ''alice'' ?url ?ticks (?ch @ drain 2))
        = tick ''alice'' ?url (?ticks ! j)"
    using fin' by (simp only: l)
  from this [rule_format, of 1]
  have fin: "returned 1 (cron_run ''alice'' ?url ?ticks (?ch @ drain 2)) \<and>
      events_of 1 (cron_run ''alice'' ?url ?ticks (?ch @ drain 2))
        = tick ''alice'' ?url world_ok"
    by simp
  have tr: "p_trace (cron_run ''alice'' ?url ?ticks ?ch)
        = [(1, CallGetVMs), (0, CallGetVMs),
           (0, CallSendToServer \<lparr> UserId = ''alice'', Vms = Vms r \<rparr> ?url),
           (0, LogPrintf (ErrorSendingVMList ?err))]"
    by (simp add: cron_run_def run_def exec_choice_def init_process_def r r' bad)
  show ?thesis using pok ok poff [of ?b] off pre [of ?b] bad [of ?b] r tk tr ne fin by blast
qed

section \<open>The user id of a batch\<close>

lemma getVMs_UserId:
  assumes "getVMs w userID = Inr r"
  shows "UserId r = userID \<and> (\<forall>vm \<in> set (elems (Vms r)). UserID vm = userID)"
proof -
  from assms obtain out resources where
    "exec_Output w pvesh_command = Inr out" "json_Unmarshal_VMInfos w out = Inr resources"
    by (rule getVMs_Inr_cases)
  then have "r = \<lparr> UserId = userID,
      Vms = Slice (map (convert userID) (filter wanted (elems resources))) \<rparr>"
    using assms by (simp add: getVMs_success)
  then show ?thesis by (auto simp: UserID_convert)
qed

lemma tick_sends:
  assumes "CallSendToServer response url \<in> set (tick userID ep w)"
  shows "\<exists>r. getVMs w userID = Inr r \<and> response = \<lparr> UserId = userID, Vms = Vms r \<rparr> \<and> url = ep"
  using assms by (auto simp: tick_def Let_def split: sum.splits)

lemma cron_run_sends:
  assumes "CallSendToServer response url \<in> set (map snd (p_trace (cron_run userID ep ticks choices)))"
  shows "\<exists>w r. w \<in> set ticks \<and> getVMs w userID = Inr r \<and>
           response = \<lparr> UserId = userID, Vms = Vms r \<rparr> \<and> url = ep"
proof -
  from assms obtain i where
    i: "(i, CallSendToServer response url) \<in> set (p_trace (cron_run userID ep ticks choices))"
    by auto
  have "i < length ticks \<and> CallSendToServer response url \<in> set (tick userID ep (ticks ! i))"
    using cron_inv_trace [OF cron_inv_cron_run i] .
  then show ?thesis using tick_sends [of response url userID ep "ticks ! i"] nth_mem by blast
qed

text \<open>
  C8: a batch that \<open>getVMs\<close> returns carries the user id it was called with, on the
  batch and on every record in it, whatever user id the raw records held; and in a run
  of \<open>main\<close>, whatever the interleaving of the firings, every batch handed to the
  dispatcher carries the user id of the login response, on the batch and on every
  record.
\<close>

theorem batches_carry_login_user:
  "(getVMs w userID = Inr r \<longrightarrow>
      UserId r = userID \<and> (\<forall>vm \<in> set (elems (Vms r)). UserID vm = userID)) \<and>
   (godotenv_Load s = None \<and>
    login (login_world s) \<lparr> ID = scanned_ID s, Password = scanned_Password s \<rparr>
      (SERVER_URL s @ ''/api/user/login'') = Inr loginResp \<and>
    CallSendToServer response url \<in> set (main s ticks choices) \<longrightarrow>
      UserId response = lr_UserID loginResp \<and>
      (\<forall>vm \<in> set (elems (Vms response)). UserID vm = lr_UserID loginResp))"
proof (intro conjI impI)
  assume "getVMs w userID = Inr r"
  then show "UserId r = userID" by (simp add: getVMs_UserId)
next
  assume "getVMs w userID = Inr r"
  then show "\<forall>vm \<in> set (elems (Vms r)). UserID vm = userID" by (simp add: getVMs_UserId)
next
  assume a: "godotenv_Load s = None \<and>
    login (login_world s) \<lparr> ID = scanned_ID s, Password = scanned_Password s \<rparr>
      (SERVER_URL s @ ''/api/user/login'') = Inr loginResp \<and>
    CallSendToServer response url \<in> set (main s ticks choices)"
  then have "main s ticks choices = CronAddFunc ''*/5 * * * *'' # CronStart #
      map snd (p_trace
        (cron_run (lr_UserID loginResp) (SERVER_URL s @ ''/api/vm/list'') ticks choices))"
    by (simp add: main_login_ok)
  with a have "CallSendToServer response url \<in>
      set (map snd (p_trace
        (cron_run (lr_UserID loginResp) (SERVER_URL s @ ''/api/vm/list'') ticks choices)))"
    by simp
  then obtain w' r' where r': "getVMs w' (lr_UserID loginResp) = Inr r'"
      "response = \<lparr> UserId = lr_UserID loginResp, Vms = Vms r' \<rparr>"
    using cron_run_sends by blast
  show "UserId response = lr_UserID loginResp" by (simp add: r'(2))
  show "\<forall>vm \<in> set (elems (Vms response)). UserID vm = lr_UserID loginResp"
    using getVMs_UserId [OF r'(1)] by (simp add: r'(2))
qed

theorem batches_carry_login_user_witness:
  "map UserID sample_resources = [''someone-else'', ''someone-else'', ''someone-else''] \<and>
   godotenv_Load (sample_startup world_ok) = None \<and>
   login world_ok \<lparr> ID = ''alice'', Password = ''pw'' \<rparr> ''http://c/api/user/login''
     = Inr sample_login \<and>
   lr_UserID sample_login = ''alice'' \<and>
   (\<exists>r. getVMs world_ok ''alice'' = Inr r \<and>
      UserId r = ''alice'' \<and>
      map UserID (elems (Vms r)) = [''alice'', ''alice''] \<and>
      CallSendToServer \<lparr> UserId = ''alice'', Vms = Vms r \<rparr> ''http://c/api/vm/list''
        \<in> set (main (sample_startup world_ok) [world_ok] [Fire, Step 0, Step 0, Step 0]))"
proof -
  let ?s = "sample_startup world_ok"
  let ?ch = "[Fire, Step 0, Step 0, Step 0]"
  have raw: "map UserID sample_resources = [''someone-else'', ''someone-else'', ''someone-else'']"
    by (simp add: sample_resources_def sample_vm_def)
  have env: "godotenv_Load ?s = None"
    by (simp add: sample_startup_def)
  have lg: "login world_ok \<lparr> ID = ''alice'', Password = ''pw'' \<rparr> ''http://c/api/user/login''
      = Inr sample_login"
    by (simp add: login_def world_ok_def ok_response_def StatusOK_def)
  have lg': "login (login_world ?s) \<lparr> ID = scanned_ID ?s, Password = scanned_Password ?s \<rparr>
      (SERVER_URL ?s @ ''/api/user/login'') = Inr sample_login"
    using lg by (simp add: sample_startup_def)
  have u: "lr_UserID sample_login = ''alice''"
    by (simp add: sample_login_def)
  have g: "getVMs world_ok ''alice'' =
      Inr \<lparr> UserId = ''alice'',
            Vms = Slice (map (convert ''alice'') (filter wanted sample_resources)) \<rparr>"
    using getVMs_success [of world_ok "''[]''" "Slice sample_resources" "''alice''"]
    by (simp add: world_ok_def)
  let ?r = "\<lparr> UserId = ''alice'',
      Vms = Slice (map (convert ''alice'') (filter wanted sample_resources)) \<rparr>"
  have len: "length (elems (Vms ?r)) = 2"
    by (simp add: sample_resources_def sample_vm_def wanted_def)
  have m: "main ?s [world_ok] ?ch = CronAddFunc ''*/5 * * * *'' # CronStart #
      map snd (p_trace (cron_run ''alice'' ''http://c/api/vm/list'' [world_ok] ?ch))"
    using main_login_ok [OF env lg', of "[world_ok]" ?ch] by (simp add: u sample_startup_def)
  have sent: "CallSendToServer \<lparr> UserId = ''alice'', Vms = Vms ?r \<rparr> ''http://c/api/vm/list''
      \<in> set (main ?s [world_ok] ?ch)"
    by (simp add: m cron_run_def run_def exec_choice_def init_process_def g)
  from batches_carry_login_user
    [where w = world_ok and userID = "''alice''" and r = ?r and s = ?s
       and loginResp = sample_login and response = "\<lparr> UserId = ''alice'', Vms = Vms ?r \<rparr>"
       and url = "''http://c/api/vm/list''" and ticks = "[world_ok]" and choices = ?ch]
  have all: "\<forall>vm \<in> set (elems (Vms ?r)). UserID vm = ''alice''"
    using g by simp
  have "map UserID (elems (Vms ?r)) = [''alice'', ''alice'']"
    using all len by (auto simp: length_Suc_conv numeral_2_eq_2 simp del: elems.simps)
  then show ?thesis using raw env lg u g sent by auto
qed

section \<open>A host without guests\<close>

text \<open>
  C9: when the inventory command succeeds and its output parses to records none of
  which has type qemu or lxc (an empty or nil list among them), \<open>getVMs\<close> succeeds with
  the empty slice that \<open>make\<close> built, which is not nil, and the firing still calls the
  dispatcher, with a report whose list of records is that empty slice.
\<close>

theorem no_guests_still_reported:
  assumes "exec_Output w pvesh_command = Inr out"
    and "json_Unmarshal_VMInfos w out = Inr resources"
    and "\<forall>res \<in> set (elems resources). Type res \<noteq> ''qemu'' \<and> Type res \<noteq> ''lxc''"
  shows "getVMs w userID = Inr \<lparr> UserId = userID, Vms = Slice [] \<rparr> \<and>
         Slice [] \<noteq> (NilSlice :: VMInfo slice) \<and>
         tick userID ep w =
           CallGetVMs # CallSendToServer \<lparr> UserId = userID, Vms = Slice [] \<rparr> ep #
           (case sendToServer w \<lparr> UserId = userID, Vms = Slice [] \<rparr> ep of
              Inl err \<Rightarrow> [LogPrintf (ErrorSendingVMList err)]
            | Inr u \<Rightarrow> [])"
proof -
  have "filter wanted (elems resources) = []"
    using assms(3) by (auto simp: wanted_def filter_empty_conv)
  then have g: "getVMs w userID = Inr \<lparr> UserId = userID, Vms = Slice [] \<rparr>"
    using getVMs_success [OF assms(1,2), of userID] by simp
  then show ?thesis by (simp add: tick_def Let_def)
qed

theorem no_guests_still_reported_witness:
  "exec_Output world_no_guests pvesh_command = Inr ''[]'' \<and>
   json_Unmarshal_VMInfos world_no_guests ''[]''
     = Inr (Slice [sample_vm ''pve'' ''node'' (F64_Fin False 0)]) \<and>
   Type (sample_vm ''pve'' ''node'' (F64_Fin False 0)) = ''node'' \<and>
   getVMs world_no_guests ''alice'' = Inr \<lparr> UserId = ''alice'', Vms = Slice [] \<rparr> \<and>
   tick ''alice'' ''http://c/api/vm/list'' world_no_guests =
     [CallGetVMs,
      CallSendToServer \<lparr> UserId = ''alice'', Vms = Slice [] \<rparr> ''http://c/api/vm/list'']"
proof -
  let ?res = "Slice [sample_vm ''pve'' ''node'' (F64_Fin False 0)]"
  have 1: "exec_Output world_no_guests pvesh_command = Inr ''[]''"
    by (simp add: world_no_guests_def world_ok_def)
  have 2: "json_Unmarshal_VMInfos world_no_guests ''[]'' = Inr ?res"
    by (simp add: world_no_guests_def world_ok_def)
  have 3: "\<forall>res \<in> set (elems ?res). Type res \<noteq> ''qemu'' \<and> Type res \<noteq> ''lxc''"
    by (simp add: sample_vm_def)
  have 4: "sendToServer world_no_guests v ''http://c/api/vm/list'' = Inr ()" for v
    by (simp add: sendToServer_def world_no_guests_def world_ok_def ok_response_def
        StatusOK_def)
  have 5: "Type (sample_vm ''pve'' ''node'' (F64_Fin False 0)) = ''node''"
    by (simp add: sample_vm_def)
  from no_guests_still_reported [OF 1 2 3, of "''alice''" "''http://c/api/vm/list''"]
  show ?thesis using 1 2 4 5 by simp
qed

end
